theory Spec2Isabelle
  imports Main "HOL-Library.Char_ord" "HOL-Library.List_Lexorder" "HOL-Library.Sublist"
begin

section \<open>The platform: Date, strings and arrays\<close>

text \<open>
  The habit tracker (\<^verbatim>\<open>script.js\<close>) keeps calendar dates as strings and does all date
  arithmetic through the JavaScript \<^verbatim>\<open>Date\<close> object. This section models the part of
  the platform the streak engine touches.

  \<^item> A time value is an integer number of milliseconds since 1970-01-01T00:00Z; the
    time value \<^verbatim>\<open>NaN\<close> of an Invalid Date is \<open>None\<close>. Time values stay in the range
    where \<^verbatim>\<open>TimeClip\<close> is the identity.
  \<^item> What the engine and the settings of the machine decide is a parameter of every
    function that depends on it, the record \<open>platform\<close>: the offset of local time from
    UTC, the reading of a string that is not a valid ISO date by \<^verbatim>\<open>new Date(s)\<close>, and
    the collation behind \<^verbatim>\<open>localeCompare\<close>.
  \<^item> \<^verbatim>\<open>new Date(s)\<close> reads the date-only ISO form \<^verbatim>\<open>YYYY-MM-DD\<close> (four-digit year, a
    month 01..12 and a day that exists in that month) as midnight UTC on every
    platform. This is the only form the application itself ever writes into a
    check-in log.
  \<^item> \<^verbatim>\<open>toISOString().split('T')[0]\<close> is the proleptic Gregorian date of the UTC day of
    a time value, with ECMAScript's expanded six-digit year outside 0000..9999.
  \<^item> \<^verbatim>\<open>getDate\<close> and \<^verbatim>\<open>setDate\<close> work on the local time of the platform.
  \<^item> The clock is a parameter \<open>now\<close>: the time value \<^verbatim>\<open>new Date()\<close> returns. It is
    the same for every clock read within one call of a function of the application.
  \<^item> The file is a classic script: the assignments to the undeclared variable
    \<^verbatim>\<open>expectedDate\<close> on lines 146, 154 and 168 set a global that is never read.
  \<^item> DOM rendering is left out. A \<^verbatim>\<open>localStorage\<close> write can throw (storage full or
    disabled); the application state records for which keys it does.
\<close>

subsection \<open>Day numbers and the Gregorian calendar (ECMAScript 21.4.1)\<close>

definition msPerDay :: int where
  "msPerDay = 1000 * 60 * 60 * 24"

definition InLeapYear :: "int \<Rightarrow> int" where
  "InLeapYear y =
     (if y mod 4 \<noteq> 0 then 0 else if y mod 100 \<noteq> 0 then 1 else if y mod 400 \<noteq> 0 then 0 else 1)"

definition DayFromYear :: "int \<Rightarrow> int" where
  "DayFromYear y =
     365 * (y - 1970) + (y - 1969) div 4 - (y - 1901) div 100 + (y - 1601) div 400"

text \<open>The largest year whose first day is not after day \<open>d\<close>: an estimate from the
  mean year length, corrected by at most one year.\<close>

definition YearFromDay :: "int \<Rightarrow> int" where
  "YearFromDay d =
     (let y = 1970 + (400 * d) div 146097
      in if DayFromYear (y + 1) \<le> d then y + 1
         else if d < DayFromYear y then y - 1
         else y)"

text \<open>The day within the year on which month \<open>m\<close> (0 = January) starts; \<open>l\<close> is 1 in a
  leap year. Month 12 is the start of the next year.\<close>

definition monthStart :: "int \<Rightarrow> nat \<Rightarrow> int" where
  "monthStart l m =
     [0, 31, 59, 90, 120, 151, 181, 212, 243, 273, 304, 334, 365] ! m + (if 2 \<le> m then l else 0)"

definition MonthFromDay :: "int \<Rightarrow> int \<Rightarrow> nat" where
  "MonthFromDay l dw =
     (if dw < 31 then 0
      else if dw < 59 + l then 1
      else if dw < 90 + l then 2
      else if dw < 120 + l then 3
      else if dw < 151 + l then 4
      else if dw < 181 + l then 5
      else if dw < 212 + l then 6
      else if dw < 243 + l then 7
      else if dw < 273 + l then 8
      else if dw < 304 + l then 9
      else if dw < 334 + l then 10
      else 11)"

definition DaysInMonth :: "int \<Rightarrow> nat \<Rightarrow> int" where
  "DaysInMonth y m = monthStart (InLeapYear y) (m + 1) - monthStart (InLeapYear y) m"

text \<open>The day number of year \<open>y\<close>, month \<open>m\<close> (0 = January), day of month \<open>dt\<close>.\<close>

definition MakeDay :: "int \<Rightarrow> nat \<Rightarrow> int \<Rightarrow> int" where
  "MakeDay y m dt = DayFromYear y + monthStart (InLeapYear y) m + dt - 1"

subsection \<open>Decimal digits\<close>

definition digitChar :: "int \<Rightarrow> char" where
  "digitChar v = ''0123456789'' ! nat (v mod 10)"

definition digitVal :: "char \<Rightarrow> int option" where
  "digitVal c = map_of (zip ''0123456789'' [0, 1, 2, 3, 4, 5, 6, 7, 8, 9]) c"

definition pad2 :: "int \<Rightarrow> string" where
  "pad2 v = [digitChar (v div 10 mod 10), digitChar (v mod 10)]"

definition pad4 :: "int \<Rightarrow> string" where
  "pad4 v = [digitChar (v div 1000 mod 10), digitChar (v div 100 mod 10),
             digitChar (v div 10 mod 10), digitChar (v mod 10)]"

definition pad6 :: "int \<Rightarrow> string" where
  "pad6 v = [digitChar (v div 100000 mod 10), digitChar (v div 10000 mod 10)] @ pad4 v"

fun parseDigits :: "int \<Rightarrow> string \<Rightarrow> int option" where
  "parseDigits acc [] = Some acc"
| "parseDigits acc (c # cs) =
     (case digitVal c of None \<Rightarrow> None | Some v \<Rightarrow> parseDigits (10 * acc + v) cs)"

subsection \<open>Date strings\<close>

text \<open>\<^verbatim>\<open>new Date(t).toISOString().split('T')[0]\<close> for a time value \<open>t\<close>.\<close>

definition formatYear :: "int \<Rightarrow> string" where
  "formatYear y =
     (if 0 \<le> y \<and> y \<le> 9999 then pad4 y
      else (if y < 0 then ''-'' else ''+'') @ pad6 \<bar>y\<bar>)"

definition toISODate :: "int \<Rightarrow> string" where
  "toISODate t =
     (let d = t div msPerDay;
          y = YearFromDay d;
          l = InLeapYear y;
          dw = d - DayFromYear y;
          m = MonthFromDay l dw;
          dt = dw - monthStart l m + 1
      in formatYear y @ ''-'' @ pad2 (int m + 1) @ ''-'' @ pad2 dt)"

subsection \<open>What the platform decides\<close>

text \<open>
  \<open>LocalTZA t isUTC\<close> is ECMAScript's \<^verbatim>\<open>LocalTZA(t, isUTC)\<close>: the offset of local time
  from UTC in milliseconds, at the UTC time value \<open>t\<close> (\<open>isUTC\<close> true) or at the local
  time value \<open>t\<close> (\<open>isUTC\<close> false). \<open>parseOther s\<close> is the time value of \<^verbatim>\<open>new Date(s)\<close>
  for a string \<open>s\<close> that is not a valid ISO date; engines differ on such strings.
  \<open>localeCompare a b\<close> is \<^verbatim>\<open>a.localeCompare(b)\<close>, the collation of the host; ECMAScript
  requires it to be a consistent comparator, for which a stable sort has one result.
\<close>

record platform =
  LocalTZA :: "int \<Rightarrow> bool \<Rightarrow> int"
  parseOther :: "string \<Rightarrow> int option"
  localeCompare :: "string \<Rightarrow> string \<Rightarrow> int"

subsection \<open>Local time (ECMAScript 21.4.1 and 21.4.4)\<close>

definition Day :: "int \<Rightarrow> int" where
  "Day t = t div msPerDay"

definition TimeWithinDay :: "int \<Rightarrow> int" where
  "TimeWithinDay t = t mod msPerDay"

definition YearFromTime :: "int \<Rightarrow> int" where
  "YearFromTime t = YearFromDay (Day t)"

definition MonthFromTime :: "int \<Rightarrow> nat" where
  "MonthFromTime t =
     (let y = YearFromTime t in MonthFromDay (InLeapYear y) (Day t - DayFromYear y))"

definition DateFromTime :: "int \<Rightarrow> int" where
  "DateFromTime t =
     (let y = YearFromTime t;
          l = InLeapYear y;
          dw = Day t - DayFromYear y
      in dw - monthStart l (MonthFromDay l dw) + 1)"

definition MakeDate :: "int \<Rightarrow> int \<Rightarrow> int" where
  "MakeDate day time = day * msPerDay + time"

definition LocalTime :: "platform \<Rightarrow> int \<Rightarrow> int" where
  "LocalTime pf t = t + LocalTZA pf t True"

definition UTC :: "platform \<Rightarrow> int \<Rightarrow> int" where
  "UTC pf t = t - LocalTZA pf t False"

text \<open>\<^verbatim>\<open>d.getDate()\<close> and the time value of \<open>d\<close> after \<^verbatim>\<open>d.setDate(dt)\<close>, for a date object
  \<open>d\<close> with time value \<open>t\<close>: the day of the month is replaced in local time and the
  local time of day is kept.\<close>

definition getDate :: "platform \<Rightarrow> int \<Rightarrow> int" where
  "getDate pf t = DateFromTime (LocalTime pf t)"

definition setDate :: "platform \<Rightarrow> int \<Rightarrow> int \<Rightarrow> int" where
  "setDate pf dt t =
     (let lt = LocalTime pf t;
          newDate = MakeDate (MakeDay (YearFromTime lt) (MonthFromTime lt) dt) (TimeWithinDay lt)
      in UTC pf newDate)"

subsection \<open>Reading date strings\<close>

text \<open>The time value of \<^verbatim>\<open>new Date(s)\<close> for a valid date-only ISO string \<open>s\<close>: midnight
  UTC of that day; \<open>None\<close> for every other string.\<close>

fun parseISODate :: "string \<Rightarrow> int option" where
  "parseISODate [y1, y2, y3, y4, h1, m1, m2, h2, d1, d2] =
     (if h1 = CHR ''-'' \<and> h2 = CHR ''-'' then
        (case (parseDigits 0 [y1, y2, y3, y4], parseDigits 0 [m1, m2], parseDigits 0 [d1, d2]) of
           (Some y, Some m, Some dt) \<Rightarrow>
             if 1 \<le> m \<and> m \<le> 12 \<and> 1 \<le> dt \<and> dt \<le> DaysInMonth y (nat (m - 1))
             then Some (msPerDay * MakeDay y (nat (m - 1)) dt)
             else None
         | _ \<Rightarrow> None)
      else None)"
| "parseISODate s = None"

text \<open>The time value of \<^verbatim>\<open>new Date(s)\<close>; \<open>None\<close> is \<^verbatim>\<open>NaN\<close> (Invalid Date). A string that
  is not a valid ISO date is read as the platform decides.\<close>

definition Date_parse :: "platform \<Rightarrow> string \<Rightarrow> int option" where
  "Date_parse pf s = (case parseISODate s of Some t \<Rightarrow> Some t | None \<Rightarrow> parseOther pf s)"

text \<open>\<^verbatim>\<open>date.split('T')[0]\<close>: the part of a string before its first \<^verbatim>\<open>T\<close>.\<close>

definition stripTime :: "string \<Rightarrow> string" where
  "stripTime date = takeWhile (\<lambda>c. c \<noteq> CHR ''T'') date"

subsection \<open>Array methods\<close>

text \<open>\<^verbatim>\<open>self.indexOf(x)\<close>: the first index of \<open>x\<close>, or -1.\<close>

fun indexOf :: "'a list \<Rightarrow> 'a \<Rightarrow> int" where
  "indexOf [] x = - 1"
| "indexOf (y # ys) x =
     (if y = x then 0 else (let i = indexOf ys x in if i < 0 then - 1 else i + 1))"

text \<open>\<^verbatim>\<open>xs.findIndex(p)\<close>: the first index whose element satisfies \<open>p\<close>, or -1.\<close>

fun findIndex :: "('a \<Rightarrow> bool) \<Rightarrow> 'a list \<Rightarrow> int" where
  "findIndex p [] = - 1"
| "findIndex p (y # ys) =
     (if p y then 0 else (let i = findIndex p ys in if i < 0 then - 1 else i + 1))"

text \<open>\<^verbatim>\<open>xs.splice(i, 1)\<close> for an index \<open>i\<close> of the array: the array without element \<open>i\<close>.\<close>

definition splice1 :: "int \<Rightarrow> 'a list \<Rightarrow> 'a list" where
  "splice1 i xs = take (nat i) xs @ drop (nat i + 1) xs"

text \<open>\<^verbatim>\<open>xs.sort(cmp)\<close>: a stable sort by a comparator (negative: the first argument
  goes first).\<close>

fun insertWith :: "('a \<Rightarrow> 'a \<Rightarrow> int) \<Rightarrow> 'a \<Rightarrow> 'a list \<Rightarrow> 'a list" where
  "insertWith cmp x [] = [x]"
| "insertWith cmp x (y # ys) =
     (if cmp x y \<le> 0 then x # y # ys else y # insertWith cmp x ys)"

fun sortWith :: "('a \<Rightarrow> 'a \<Rightarrow> int) \<Rightarrow> 'a list \<Rightarrow> 'a list" where
  "sortWith cmp [] = []"
| "sortWith cmp (x # xs) = insertWith cmp x (sortWith cmp xs)"

text \<open>\<^verbatim>\<open>.filter((date, index, self) => self.indexOf(date) === index)\<close>\<close>

definition removeDuplicates :: "'a list \<Rightarrow> 'a list" where
  "removeDuplicates self =
     map fst (filter (\<lambda>(date, index). indexOf self date = int index)
                     (zip self [0..<length self]))"

section \<open>Date utilities\<close>

definition getTodayDateString :: "int \<Rightarrow> string" where
  "getTodayDateString now = toISODate now"

text \<open>Lines 44-46: the clock reading is moved back one day in local time, and the date
  is then read off in UTC.\<close>

definition getYesterdayDateString :: "platform \<Rightarrow> int \<Rightarrow> string" where
  "getYesterdayDateString pf now = toISODate (setDate pf (getDate pf now - 1) now)"

definition isToday :: "int \<Rightarrow> string \<Rightarrow> bool" where
  "isToday now dateString = (dateString = getTodayDateString now)"

definition isYesterday :: "platform \<Rightarrow> int \<Rightarrow> string \<Rightarrow> bool" where
  "isYesterday pf now dateString = (dateString = getYesterdayDateString pf now)"

text \<open>\<^verbatim>\<open>Math.floor(Math.abs(d2 - d1) / (1000 * 60 * 60 * 24))\<close>; \<open>None\<close> is \<^verbatim>\<open>NaN\<close>.\<close>

definition getDaysDifference :: "platform \<Rightarrow> string \<Rightarrow> string \<Rightarrow> int option" where
  "getDaysDifference pf date1 date2 =
     (case (Date_parse pf date1, Date_parse pf date2) of
        (Some d1, Some d2) \<Rightarrow> Some (\<bar>d2 - d1\<bar> div msPerDay)
      | _ \<Rightarrow> None)"

section \<open>Streak calculation\<close>

text \<open>
  Lines 134-136: the next expected date, one day before a check-in date. The date
  object of the check-in is moved back one day in local time with \<^verbatim>\<open>setDate\<close> and the
  date is then read off in UTC with \<^verbatim>\<open>toISOString\<close>. \<^verbatim>\<open>toISOString\<close> throws a RangeError
  on an Invalid Date: that is the result \<open>None\<close>. The loop below calls this only after
  \<open>getDaysDifference\<close> returned 0, when the date is valid, so its branch for \<open>None\<close> is
  never taken (lemma \<open>previousDay_defined\<close>).
\<close>

definition previousDay :: "platform \<Rightarrow> string \<Rightarrow> string option" where
  "previousDay pf checkInDate =
     (case Date_parse pf checkInDate of
        None \<Rightarrow> None
      | Some t \<Rightarrow> Some (toISODate (setDate pf (getDate pf t - 1) t)))"

text \<open>The loop of lines 126-141 over \<open>sortedCheckIns[1..]\<close>, with the loop variables
  \<open>expectedDate\<close> and \<open>currentStreak\<close>.\<close>

fun countBackwards :: "platform \<Rightarrow> string list \<Rightarrow> string \<Rightarrow> int \<Rightarrow> int" where
  "countBackwards pf [] expectedDate currentStreak = currentStreak"
| "countBackwards pf (checkInDate # rest) expectedDate currentStreak =
     (if getDaysDifference pf checkInDate expectedDate = Some 0
      then (case previousDay pf checkInDate of
              Some expectedDate' \<Rightarrow> countBackwards pf rest expectedDate' (currentStreak + 1)
            | None \<Rightarrow> currentStreak)
      else currentStreak)"

text \<open>The loop of lines 149-169 from \<open>i = 1\<close> on, with \<open>prevDate = sortedCheckIns[i - 1]\<close>
  and the loop variables \<open>longestStreak\<close> and \<open>tempStreak\<close>; it returns both.\<close>

fun scanHistory :: "platform \<Rightarrow> string list \<Rightarrow> string \<Rightarrow> int \<Rightarrow> int \<Rightarrow> int \<times> int" where
  "scanHistory pf [] prevDate longestStreak tempStreak = (longestStreak, tempStreak)"
| "scanHistory pf (checkInDate # rest) prevDate longestStreak tempStreak =
     (if getDaysDifference pf prevDate checkInDate = Some 1
      then scanHistory pf rest checkInDate longestStreak (tempStreak + 1)
      else scanHistory pf rest checkInDate (max longestStreak tempStreak) 1)"

text \<open>
  \<^verbatim>\<open>calculateStreaks\<close> returns an object with the two streak fields; a habit carries the
  same two fields beside its own, so the habit record extends the result record. A
  habit's \<^verbatim>\<open>id\<close> is the field \<open>habitId\<close> (\<open>id\<close> is HOL's identity function). Streak
  counters are JavaScript numbers that only ever hold small whole values: \<open>int\<close>.
\<close>

record streaks =
  currentStreak :: int
  longestStreak :: int

record habit = streaks +
  habitId :: string
  name :: string
  checkIns :: "string list"
  createdAt :: string

text \<open>The normalised view of a log: time components stripped, duplicates removed, sorted
  newest first (lines 101-104).\<close>

definition sortedCheckIns :: "platform \<Rightarrow> habit \<Rightarrow> string list" where
  "sortedCheckIns pf h =
     sortWith (\<lambda>a b. localeCompare pf b a) (removeDuplicates (map stripTime (checkIns h)))"

definition calculateStreaks :: "platform \<Rightarrow> int \<Rightarrow> habit \<Rightarrow> streaks" where
  "calculateStreaks pf now h =
     (if checkIns h = [] then \<lparr>currentStreak = 0, longestStreak = 0\<rparr>
      else
        (case sortedCheckIns pf h of
           [] \<Rightarrow> \<lparr>currentStreak = 0, longestStreak = 0\<rparr>
         | mostRecentCheckIn # rest \<Rightarrow>
             (let current =
                    (if isToday now mostRecentCheckIn
                     then countBackwards pf rest (getYesterdayDateString pf now) 1
                     else 0);
                  (longest, temp) = scanHistory pf rest mostRecentCheckIn 0 1
              in \<lparr>currentStreak = current, longestStreak = max longest temp\<rparr>)))"

definition updateStreaks :: "platform \<Rightarrow> int \<Rightarrow> habit \<Rightarrow> habit" where
  "updateStreaks pf now h =
     (let s = calculateStreaks pf now h
      in h\<lparr>currentStreak := currentStreak s, longestStreak := longestStreak s\<rparr>)"

section \<open>Application state and localStorage\<close>

text \<open>
  \<open>habits\<close> and \<open>lastCheckedDate\<close> are the global \<^verbatim>\<open>state\<close> object; \<open>storedHabits\<close> and
  \<open>storedLastCheckedDate\<close> are the two \<^verbatim>\<open>localStorage\<close> entries (\<open>None\<close>: no entry, or for
  the habits one that \<^verbatim>\<open>JSON.parse\<close> rejects). \<open>setItemThrows key\<close> says that
  \<^verbatim>\<open>localStorage.setItem(key, value)\<close> throws.
\<close>

record app =
  habits :: "habit list"
  lastCheckedDate :: "string option"
  storedHabits :: "habit list option"
  storedLastCheckedDate :: "string option"
  setItemThrows :: "string \<Rightarrow> bool"

definition STORAGE_KEY :: string where
  "STORAGE_KEY = ''habitTrackerData''"

definition LAST_CHECKED_DATE_KEY :: string where
  "LAST_CHECKED_DATE_KEY = ''habitTrackerLastCheckedDate''"

definition loadHabitsFromStorage :: "platform \<Rightarrow> int \<Rightarrow> app \<Rightarrow> habit list" where
  "loadHabitsFromStorage pf now a =
     (case storedHabits a of
        Some stored \<Rightarrow> map (updateStreaks pf now) stored
      | None \<Rightarrow> [])"

text \<open>Lines 218-226: the three statements run inside \<^verbatim>\<open>try\<close>, so a write that throws
  skips the statements after it.\<close>

definition saveHabitsToStorage :: "int \<Rightarrow> app \<Rightarrow> app" where
  "saveHabitsToStorage now a =
     (if setItemThrows a STORAGE_KEY then a
      else
        (let a1 = a\<lparr>storedHabits := Some (habits a),
                    lastCheckedDate := Some (getTodayDateString now)\<rparr>
         in if setItemThrows a LAST_CHECKED_DATE_KEY then a1
            else a1\<lparr>storedLastCheckedDate := Some (getTodayDateString now)\<rparr>))"

definition hasDateChanged :: "int \<Rightarrow> app \<Rightarrow> bool" where
  "hasDateChanged now a =
     (case storedLastCheckedDate a of
        None \<Rightarrow> True
      | Some lastChecked \<Rightarrow>
          if lastChecked = [] then True else lastChecked \<noteq> getTodayDateString now)"

text \<open>The body of the \<^verbatim>\<open>forEach\<close> in \<^verbatim>\<open>handleDateRollover\<close> (lines 252-272): the habit
  afterwards, and whether this habit set \<open>needsUpdate\<close>.\<close>

definition rolloverHabit :: "platform \<Rightarrow> int \<Rightarrow> habit \<Rightarrow> habit \<times> bool" where
  "rolloverHabit pf now h =
     (if checkIns h = [] then (h, False)
      else
        (case sortWith (\<lambda>a b. localeCompare pf b a) (map stripTime (checkIns h)) of
           [] \<Rightarrow> (h, False)
         | mostRecentCheckIn # rest \<Rightarrow>
             (case getDaysDifference pf mostRecentCheckIn (getTodayDateString now) of
                Some daysSinceLastCheckIn \<Rightarrow>
                  if daysSinceLastCheckIn > 1 then (updateStreaks pf now h, True) else (h, False)
              | None \<Rightarrow> (h, False))))"

definition handleDateRollover :: "platform \<Rightarrow> int \<Rightarrow> app \<Rightarrow> app" where
  "handleDateRollover pf now a =
     (let results = map (rolloverHabit pf now) (habits a);
          needsUpdate = list_ex snd results;
          a' = a\<lparr>habits := map fst results\<rparr>
      in if needsUpdate then saveHabitsToStorage now a' else a')"

text \<open>The date check that \<^verbatim>\<open>init\<close> runs at start and then every minute
  (lines 648-650 and 659-663).\<close>

definition checkDateRollover :: "platform \<Rightarrow> int \<Rightarrow> app \<Rightarrow> app" where
  "checkDateRollover pf now a =
     (if hasDateChanged now a then handleDateRollover pf now a else a)"

definition init :: "platform \<Rightarrow> int \<Rightarrow> app \<Rightarrow> app" where
  "init pf now a = checkDateRollover pf now (a\<lparr>habits := loadHabitsFromStorage pf now a\<rparr>)"

section \<open>Check-in toggle\<close>

text \<open>Lines 354-373, on the habit object that \<^verbatim>\<open>find\<close> returned.\<close>

definition toggleHabit :: "platform \<Rightarrow> int \<Rightarrow> habit \<Rightarrow> habit" where
  "toggleHabit pf now h =
     (let today = getTodayDateString now;
          todayCheckInIndex = findIndex (\<lambda>date. stripTime date = today) (checkIns h);
          h' = (if todayCheckInIndex \<noteq> - 1
                then h\<lparr>checkIns := splice1 todayCheckInIndex (checkIns h)\<rparr>
                else if today \<notin> set (checkIns h)
                     then h\<lparr>checkIns := checkIns h @ [today]\<rparr>
                     else h)
      in updateStreaks pf now h')"

text \<open>The habit object is mutated in place: the first habit with the given id is
  replaced in the list.\<close>

fun updateFound :: "string \<Rightarrow> (habit \<Rightarrow> habit) \<Rightarrow> habit list \<Rightarrow> habit list" where
  "updateFound i f [] = []"
| "updateFound i f (h # hs) = (if habitId h = i then f h # hs else h # updateFound i f hs)"

definition toggleCheckIn :: "platform \<Rightarrow> int \<Rightarrow> string \<Rightarrow> app \<Rightarrow> app" where
  "toggleCheckIn pf now i a =
     (case find (\<lambda>h. habitId h = i) (habits a) of
        None \<Rightarrow> a
      | Some h \<Rightarrow>
          saveHabitsToStorage now (a\<lparr>habits := updateFound i (toggleHabit pf now) (habits a)\<rparr>))"

section \<open>Arrays as objects\<close>

text \<open>
  Lines 101-104 build the sorted view with array methods. The spread \<^verbatim>\<open>[...xs]\<close>, \<^verbatim>\<open>map\<close>
  and \<^verbatim>\<open>filter\<close> allocate a new array each; only \<^verbatim>\<open>sort\<close> works in place, on the
  array it is called on. To say which array is written, arrays live in a store and are
  named by their address; \<open>fresh\<close> is the next unused address.
\<close>

record heap =
  arrays :: "nat \<Rightarrow> string list option"
  fresh :: nat

definition elements :: "nat \<Rightarrow> heap \<Rightarrow> string list" where
  "elements a hp = (case arrays hp a of Some xs \<Rightarrow> xs | None \<Rightarrow> [])"

definition newArray :: "string list \<Rightarrow> heap \<Rightarrow> nat \<times> heap" where
  "newArray xs hp = (fresh hp, hp\<lparr>arrays := (arrays hp)(fresh hp \<mapsto> xs), fresh := fresh hp + 1\<rparr>)"

definition arrayCopy :: "nat \<Rightarrow> heap \<Rightarrow> nat \<times> heap" where
  "arrayCopy a hp = newArray (elements a hp) hp"

definition arrayMap :: "(string \<Rightarrow> string) \<Rightarrow> nat \<Rightarrow> heap \<Rightarrow> nat \<times> heap" where
  "arrayMap f a hp = newArray (map f (elements a hp)) hp"

definition arrayRemoveDuplicates :: "nat \<Rightarrow> heap \<Rightarrow> nat \<times> heap" where
  "arrayRemoveDuplicates a hp = newArray (removeDuplicates (elements a hp)) hp"

definition arraySort :: "(string \<Rightarrow> string \<Rightarrow> int) \<Rightarrow> nat \<Rightarrow> heap \<Rightarrow> nat \<times> heap" where
  "arraySort cmp a hp = (a, hp\<lparr>arrays := (arrays hp)(a \<mapsto> sortWith cmp (elements a hp))\<rparr>)"

text \<open>Lines 101-104 on the array at address \<open>checkInsAddr\<close> (\<^verbatim>\<open>habit.checkIns\<close>): the
  address of \<^verbatim>\<open>sortedCheckIns\<close> and the store afterwards.\<close>

definition sortedCheckInsArray :: "platform \<Rightarrow> nat \<Rightarrow> heap \<Rightarrow> nat \<times> heap" where
  "sortedCheckInsArray pf checkInsAddr hp =
     (let (a1, hp1) = arrayCopy checkInsAddr hp;
          (a2, hp2) = arrayMap stripTime a1 hp1;
          (a3, hp3) = arrayRemoveDuplicates a2 hp2
      in arraySort (\<lambda>a b. localeCompare pf b a) a3 hp3)"

section \<open>Notions of the specification\<close>

text \<open>The calendar dates of a log, and the invariant of at most one entry per calendar
  date.\<close>

definition calendarDates :: "string list \<Rightarrow> string set" where
  "calendarDates log = stripTime ` set log"

definition oneEntryPerDate :: "string list \<Rightarrow> bool" where
  "oneEntryPerDate log = distinct (map stripTime log)"

text \<open>A well-formed calendar date is a valid date in the form \<^verbatim>\<open>YYYY-MM-DD\<close>.\<close>

definition wellFormedDate :: "string \<Rightarrow> bool" where
  "wellFormedDate s = (parseISODate s \<noteq> None)"

text \<open>A well-formed date whose day before is written with a four-digit year too.\<close>

definition ordinaryDate :: "string \<Rightarrow> bool" where
  "ordinaryDate s = (wellFormedDate s \<and> s \<noteq> ''0000-01-01'')"

text \<open>The calendar day a well-formed date denotes, as a day number (days since
  1970-01-01).\<close>

definition dayOf :: "string \<Rightarrow> int option" where
  "dayOf s = map_option (\<lambda>t. t div msPerDay) (parseISODate s)"

text \<open>
  The current streak in the words of the specification: zero unless the most recent
  entry is today; otherwise today counts as 1 and the walk over the remaining dates
  counts each date that is the expected day, moving the expected day to its
  predecessor, and stops at the first date that is not.
\<close>

fun walkExpected :: "int \<Rightarrow> string list \<Rightarrow> int" where
  "walkExpected expected [] = 0"
| "walkExpected expected (date # rest) =
     (if dayOf date = Some expected then 1 + walkExpected (expected - 1) rest else 0)"

definition currentStreakSpec :: "int \<Rightarrow> string list \<Rightarrow> int" where
  "currentStreakSpec now dates =
     (case dates of
        [] \<Rightarrow> 0
      | mostRecent # rest \<Rightarrow>
          if mostRecent = getTodayDateString now
          then 1 + walkExpected (now div msPerDay - 1) rest
          else 0)"


text \<open>The stored streak fields of a habit are those its log gives at the clock reading
  \<open>now\<close>.\<close>

definition streaksUpToDate :: "platform \<Rightarrow> int \<Rightarrow> habit \<Rightarrow> bool" where
  "streaksUpToDate pf now h =
     (currentStreak h = currentStreak (calculateStreaks pf now h) \<and>
      longestStreak h = longestStreak (calculateStreaks pf now h))"

text \<open>The collation orders the strings of a set strictly: as the comparator of a sort
  it is a total order on them, in which no two different strings tie.\<close>

definition collatesStrictly :: "platform \<Rightarrow> string set \<Rightarrow> bool" where
  "collatesStrictly pf S =
     (\<forall>a \<in> S. \<forall>b \<in> S.
        (localeCompare pf a b \<le> 0 \<or> localeCompare pf b a \<le> 0) \<and>
        (localeCompare pf a b \<le> 0 \<and> localeCompare pf b a \<le> 0 \<longrightarrow> a = b) \<and>
        (\<forall>c \<in> S. localeCompare pf a b \<le> 0 \<and> localeCompare pf b c \<le> 0 \<longrightarrow>
           localeCompare pf a c \<le> 0))"

text \<open>The local time of the platform has one offset from UTC at all times (no daylight
  saving time).\<close>

definition fixedOffset :: "platform \<Rightarrow> bool" where
  "fixedOffset pf = (\<forall>t isUTC t' isUTC'. LocalTZA pf t isUTC = LocalTZA pf t' isUTC')"

section \<open>Example data\<close>

text \<open>Collation by character code.\<close>

definition compareCodeUnits :: "string \<Rightarrow> string \<Rightarrow> int" where
  "compareCodeUnits a b = (if a < b then - 1 else if a = b then 0 else 1)"

text \<open>A platform whose local time is UTC, which reads no string but a valid ISO date as
  a date, and which collates by character code.\<close>

definition utc :: platform where
  "utc = \<lparr>LocalTZA = (\<lambda>t isUTC. 0), parseOther = (\<lambda>s. None), localeCompare = compareCodeUnits\<rparr>"

text \<open>
  The same platform in the time zone \<^verbatim>\<open>America/Los_Angeles\<close> as of 2024: daylight saving
  time (UTC-7) from 2024-03-10T10:00Z until 2024-11-03T09:00Z, which is from 03:00 on
  March 10 until 02:00 on November 3 in local time, and UTC-8 outside.
\<close>

definition losAngeles :: platform where
  "losAngeles =
     \<lparr>LocalTZA = (\<lambda>t isUTC.
        if (if isUTC then 1710064800000 \<le> t \<and> t < 1730624400000
            else 1710039600000 \<le> t \<and> t < 1730599200000)
        then - 7 * 3600000 else - 8 * 3600000),
      parseOther = (\<lambda>s. None), localeCompare = compareCodeUnits\<rparr>"

text \<open>A habit with a given log and zero stored streaks, and three clock readings:
  2024-02-01, 01:00 UTC; the same day at 00:00:30 UTC, before the first periodic date
  check of the day; and 2024-11-06, 20:00 UTC (noon in Los Angeles).\<close>

definition habitWith :: "string list \<Rightarrow> habit" where
  "habitWith log =
     \<lparr>currentStreak = 0, longestStreak = 0, habitId = ''h1'', name = ''Run'',
      checkIns = log, createdAt = ''2024-01-01T08:00:00.000Z''\<rparr>"

definition feb1 :: int where
  "feb1 = 1706749200000"


definition nov6 :: int where
  "nov6 = 1730923200000"

text \<open>An application state with the given habits, last saved on 2024-01-31, whose
  storage accepts every write.\<close>

definition appWith :: "habit list \<Rightarrow> app" where
  "appWith hs =
     \<lparr>habits = hs, lastCheckedDate = Some ''2024-01-31'',
      storedHabits = Some hs, storedLastCheckedDate = Some ''2024-01-31'',
      setItemThrows = (\<lambda>key. False)\<rparr>"

section \<open>Properties of the array methods\<close>

lemma indexOf_in: "x \<in> set xs \<Longrightarrow> 0 \<le> indexOf xs x \<and> indexOf xs x < int (length xs)"
  by (induction xs) (auto simp: Let_def)

lemma indexOf_append_in: "x \<in> set xs \<Longrightarrow> indexOf (xs @ ys) x = indexOf xs x"
  by (induction xs) (auto simp: Let_def)

lemma indexOf_append_notin: "x \<notin> set xs \<Longrightarrow> indexOf (xs @ [x]) x = int (length xs)"
  by (induction xs) (auto simp: Let_def)

lemma removeDuplicates_snoc:
  "removeDuplicates (xs @ [x]) = removeDuplicates xs @ (if x \<in> set xs then [] else [x])"
proof -
  have zip_eq: "zip (xs @ [x]) [0..<length (xs @ [x])] = zip xs [0..<length xs] @ [(x, length xs)]"
    by simp
  have old: "filter (\<lambda>(date, index). indexOf (xs @ [x]) date = int index) (zip xs [0..<length xs])
           = filter (\<lambda>(date, index). indexOf xs date = int index) (zip xs [0..<length xs])"
    by (rule filter_cong) (auto simp: indexOf_append_in dest: set_zip_leftD)
  have new: "(indexOf (xs @ [x]) x = int (length xs)) = (x \<notin> set xs)"
    using indexOf_in [of x xs] indexOf_append_in [of x xs "[x]"] indexOf_append_notin [of x xs]
    by auto
  show ?thesis
    unfolding removeDuplicates_def zip_eq filter_append old
    using new by simp
qed

lemma removeDuplicates_Nil: "removeDuplicates [] = []"
  by (simp add: removeDuplicates_def)

lemma set_removeDuplicates: "set (removeDuplicates xs) = set xs"
  by (induction xs rule: rev_induct) (auto simp: removeDuplicates_snoc removeDuplicates_Nil)

lemma distinct_removeDuplicates: "distinct (removeDuplicates xs)"
  by (induction xs rule: rev_induct)
     (auto simp: removeDuplicates_snoc set_removeDuplicates removeDuplicates_Nil)

lemma removeDuplicates_distinct: "distinct xs \<Longrightarrow> removeDuplicates xs = xs"
  by (induction xs rule: rev_induct) (auto simp: removeDuplicates_snoc removeDuplicates_Nil)

lemma set_insertWith: "set (insertWith cmp x ys) = insert x (set ys)"
  by (induction ys) auto

lemma set_sortWith: "set (sortWith cmp xs) = set xs"
  by (induction xs) (auto simp: set_insertWith)

lemma distinct_insertWith: "distinct (insertWith cmp x ys) = (x \<notin> set ys \<and> distinct ys)"
  by (induction ys) (auto simp: set_insertWith)

lemma distinct_sortWith: "distinct (sortWith cmp xs) = distinct xs"
  by (induction xs) (auto simp: distinct_insertWith set_sortWith)

text \<open>With a comparator that is total and transitive on the elements, the sort yields a
  list in which every element goes before all later ones; if moreover no two different
  elements tie, there is only one such arrangement of a set.\<close>

lemma sorted_insertWith:
  assumes "sorted_wrt (\<lambda>a b. cmp a b \<le> 0) ys"
    and "\<And>a b. a \<in> insert x (set ys) \<Longrightarrow> b \<in> insert x (set ys) \<Longrightarrow> cmp a b \<le> 0 \<or> cmp b a \<le> 0"
    and "\<And>a b c. a \<in> insert x (set ys) \<Longrightarrow> b \<in> insert x (set ys) \<Longrightarrow> c \<in> insert x (set ys) \<Longrightarrow>
           cmp a b \<le> 0 \<Longrightarrow> cmp b c \<le> 0 \<Longrightarrow> cmp a c \<le> 0"
  shows "sorted_wrt (\<lambda>a b. cmp a b \<le> 0) (insertWith cmp x ys)"
  using assms
proof (induction ys)
  case Nil
  show ?case by simp
next
  case (Cons y ys)
  show ?case
  proof (cases "cmp x y \<le> 0")
    case True
    have "cmp x z \<le> 0" if "z \<in> set ys" for z
    proof -
      have "cmp y z \<le> 0" using Cons.prems(1) that by simp
      with True show ?thesis using Cons.prems(3) [of x y z] that by simp
    qed
    with True Cons.prems(1) show ?thesis by simp
  next
    case False
    then have yx: "cmp y x \<le> 0" using Cons.prems(2) [of x y] by auto
    have "sorted_wrt (\<lambda>a b. cmp a b \<le> 0) (insertWith cmp x ys)"
    proof (rule Cons.IH)
      show "sorted_wrt (\<lambda>a b. cmp a b \<le> 0) ys" using Cons.prems(1) by simp
      show "cmp a b \<le> 0 \<or> cmp b a \<le> 0"
        if "a \<in> insert x (set ys)" "b \<in> insert x (set ys)" for a b
        using that Cons.prems(2) [of a b] by auto
      show "cmp a c \<le> 0"
        if "a \<in> insert x (set ys)" "b \<in> insert x (set ys)" "c \<in> insert x (set ys)"
          "cmp a b \<le> 0" "cmp b c \<le> 0" for a b c
        using that Cons.prems(3) [of a b c] by auto
    qed
    with False yx Cons.prems(1) show ?thesis by (auto simp: set_insertWith)
  qed
qed

lemma sorted_sortWith:
  assumes "\<And>a b. a \<in> set xs \<Longrightarrow> b \<in> set xs \<Longrightarrow> cmp a b \<le> 0 \<or> cmp b a \<le> 0"
    and "\<And>a b c. a \<in> set xs \<Longrightarrow> b \<in> set xs \<Longrightarrow> c \<in> set xs \<Longrightarrow>
           cmp a b \<le> 0 \<Longrightarrow> cmp b c \<le> 0 \<Longrightarrow> cmp a c \<le> 0"
  shows "sorted_wrt (\<lambda>a b. cmp a b \<le> 0) (sortWith cmp xs)"
  using assms
proof (induction xs)
  case Nil
  show ?case by simp
next
  case (Cons x xs)
  have "sorted_wrt (\<lambda>a b. cmp a b \<le> 0) (sortWith cmp xs)"
  proof (rule Cons.IH)
    show "cmp a b \<le> 0 \<or> cmp b a \<le> 0" if "a \<in> set xs" "b \<in> set xs" for a b
      using that Cons.prems(1) [of a b] by simp
    show "cmp a c \<le> 0"
      if "a \<in> set xs" "b \<in> set xs" "c \<in> set xs" "cmp a b \<le> 0" "cmp b c \<le> 0" for a b c
      using that Cons.prems(2) [of a b c] by simp
  qed
  then have "sorted_wrt (\<lambda>a b. cmp a b \<le> 0) (insertWith cmp x (sortWith cmp xs))"
  proof (rule sorted_insertWith)
    show "cmp a b \<le> 0 \<or> cmp b a \<le> 0"
      if "a \<in> insert x (set (sortWith cmp xs))" "b \<in> insert x (set (sortWith cmp xs))" for a b
      using that Cons.prems(1) [of a b] by (simp add: set_sortWith)
    show "cmp a c \<le> 0"
      if "a \<in> insert x (set (sortWith cmp xs))" "b \<in> insert x (set (sortWith cmp xs))"
        "c \<in> insert x (set (sortWith cmp xs))" "cmp a b \<le> 0" "cmp b c \<le> 0" for a b c
      using that Cons.prems(2) [of a b c] by (simp add: set_sortWith)
  qed
  then show ?case by simp
qed

lemma sorted_wrt_unique:
  assumes "sorted_wrt R xs" "sorted_wrt R ys" "distinct xs" "distinct ys" "set xs = set ys"
    and "\<And>a b. a \<in> set xs \<Longrightarrow> b \<in> set xs \<Longrightarrow> R a b \<Longrightarrow> R b a \<Longrightarrow> a = b"
  shows "xs = ys"
  using assms
proof (induction xs arbitrary: ys)
  case Nil
  then show ?case by simp
next
  case (Cons x xs)
  from Cons.prems(5) obtain y ys' where ys: "ys = y # ys'" by (cases ys) auto
  have "x = y"
  proof (rule ccontr)
    assume ne: "x \<noteq> y"
    then have "x \<in> set ys'" "y \<in> set xs" using Cons.prems(5) unfolding ys by auto
    then have "R y x" "R x y" using Cons.prems(1,2) unfolding ys by auto
    moreover have "y \<in> set (x # xs)" using \<open>y \<in> set xs\<close> by simp
    ultimately show False using ne Cons.prems(6) [of x y] by simp
  qed
  moreover have "xs = ys'"
  proof (rule Cons.IH)
    show "sorted_wrt R xs" "sorted_wrt R ys'" using Cons.prems(1,2) unfolding ys by simp_all
    show "distinct xs" "distinct ys'" using Cons.prems(3,4) unfolding ys by simp_all
    show "set xs = set ys'" using Cons.prems(3,4,5) \<open>x = y\<close> unfolding ys by auto
    show "a = b" if "a \<in> set xs" "b \<in> set xs" "R a b" "R b a" for a b
      using that Cons.prems(6) [of a b] by simp
  qed
  ultimately show ?case by (simp add: ys)
qed

lemma compareCodeUnits_strict:
  "localeCompare pf = compareCodeUnits \<Longrightarrow> collatesStrictly pf S"
  by (auto simp: collatesStrictly_def compareCodeUnits_def split: if_splits)

section \<open>Properties of date strings\<close>

lemma stripTime_idem: "stripTime (stripTime s) = stripTime s"
  by (simp add: stripTime_def)

lemma stripTime_noT: "CHR ''T'' \<notin> set s \<Longrightarrow> stripTime s = s"
  by (auto simp: stripTime_def takeWhile_eq_all_conv)

lemma digit_cases:
  "0 \<le> (v :: int) \<Longrightarrow> v < 10 \<Longrightarrow> v \<in> {0, 1, 2, 3, 4, 5, 6, 7, 8, 9}"
  by simp arith

lemma digitChar_values:
  "digitChar 0 = CHR ''0''" "digitChar 1 = CHR ''1''" "digitChar 2 = CHR ''2''"
  "digitChar 3 = CHR ''3''" "digitChar 4 = CHR ''4''" "digitChar 5 = CHR ''5''"
  "digitChar 6 = CHR ''6''" "digitChar 7 = CHR ''7''" "digitChar 8 = CHR ''8''"
  "digitChar 9 = CHR ''9''"
  by (simp_all add: digitChar_def)

lemma digitChar_mod: "digitChar (v mod 10) = digitChar v"
  by (simp add: digitChar_def)

lemma digitChar_not_T: "digitChar v \<noteq> CHR ''T''"
proof -
  have "v mod 10 \<in> {0, 1, 2, 3, 4, 5, 6, 7, 8, 9}" by (intro digit_cases) simp_all
  then have "digitChar (v mod 10) \<noteq> CHR ''T''" by (auto simp: digitChar_values)
  with digitChar_mod [of v] show ?thesis by simp
qed

lemma pad2_noT: "CHR ''T'' \<notin> set (pad2 v)"
  using digitChar_not_T [of "v mod 10"] digitChar_not_T [of "v div 10 mod 10"]
  by (auto simp: pad2_def)

lemma pad4_noT: "CHR ''T'' \<notin> set (pad4 v)"
  using digitChar_not_T [of "v mod 10"] digitChar_not_T [of "v div 10 mod 10"]
    digitChar_not_T [of "v div 100 mod 10"] digitChar_not_T [of "v div 1000 mod 10"]
  by (auto simp: pad4_def)

lemma pad6_noT: "CHR ''T'' \<notin> set (pad6 v)"
  using digitChar_not_T [of "v div 10000 mod 10"] digitChar_not_T [of "v div 100000 mod 10"] pad4_noT [of v]
  by (auto simp: pad6_def)

lemma toISODate_noT: "CHR ''T'' \<notin> set (toISODate t)"
  by (simp add: toISODate_def Let_def formatYear_def pad2_noT pad4_noT pad6_noT)

lemma stripTime_today: "stripTime (getTodayDateString now) = getTodayDateString now"
  by (simp add: getTodayDateString_def stripTime_noT toISODate_noT)

section \<open>Properties of the calendar\<close>

lemma InLeapYear_cases: "InLeapYear y = 0 \<or> InLeapYear y = 1"
  by (simp add: InLeapYear_def)

lemma div_bounds:
  fixes t n :: int
  assumes "0 < n"
  shows "n * (t div n) \<le> t" and "t < n * (t div n) + n"
proof -
  have "t = n * (t div n) + t mod n" by simp
  moreover have "0 \<le> t mod n" "t mod n < n" using assms by simp_all
  ultimately show "n * (t div n) \<le> t" and "t < n * (t div n) + n" by linarith+
qed

lemma div_step:
  fixes x n :: int
  assumes "0 < n"
  shows "(x + 1) div n = x div n + (if (x + 1) mod n = 0 then 1 else 0)"
proof (cases "(x + 1) mod n = 0")
  case True
  then obtain k where k: "x + 1 = n * k" by (auto simp: mod_eq_0_iff_dvd)
  then have "x = n * (k - 1) + (n - 1)" by (simp add: algebra_simps)
  then have "x div n = k - 1"
    using assms by (intro int_div_pos_eq [where r = "n - 1"]) auto
  moreover have "(x + 1) div n = k" using k assms by simp
  ultimately show ?thesis using True by simp
next
  case False
  define r where "r = (x + 1) mod n"
  have "0 \<le> r" "r < n" using assms by (simp_all add: r_def)
  with False have r: "0 < r" "r < n" by (auto simp: r_def)
  have "x + 1 = n * ((x + 1) div n) + r" by (simp add: r_def)
  then have "x = n * ((x + 1) div n) + (r - 1)" by simp
  then have "x div n = (x + 1) div n"
    using r by (intro int_div_pos_eq [where r = "r - 1"]) auto
  then show ?thesis using False by simp
qed

lemma DayFromYear_step: "DayFromYear (y + 1) = DayFromYear y + 365 + InLeapYear y"
proof -
  have a: "(y + 1 - 1969) div 4 = (y - 1969) div 4 + (if y mod 4 = 0 then 1 else 0)"
  proof -
    have "(y - 1968) mod 4 = y mod 4" by presburger
    then show ?thesis using div_step [of 4 "y - 1969"] by (simp add: algebra_simps)
  qed
  have b: "(y + 1 - 1901) div 100 = (y - 1901) div 100 + (if y mod 100 = 0 then 1 else 0)"
  proof -
    have "(y - 1900) mod 100 = (y + (- 19) * 100) mod 100" by simp
    also have "\<dots> = y mod 100" by (rule mod_mult_self1)
    finally show ?thesis using div_step [of 100 "y - 1901"] by (simp add: algebra_simps)
  qed
  have c: "(y + 1 - 1601) div 400 = (y - 1601) div 400 + (if y mod 400 = 0 then 1 else 0)"
  proof -
    have "(y - 1600) mod 400 = (y + (- 4) * 400) mod 400" by simp
    also have "\<dots> = y mod 400" by (rule mod_mult_self1)
    finally show ?thesis using div_step [of 400 "y - 1601"] by (simp add: algebra_simps)
  qed
  have d: "y mod 400 = 0 \<Longrightarrow> y mod 100 = 0" "y mod 100 = 0 \<Longrightarrow> y mod 4 = 0"
    by (auto simp: mod_eq_0_iff_dvd elim: dvd_trans [rotated])
  show ?thesis
    unfolding DayFromYear_def InLeapYear_def a b c using d by auto
qed


lemma DayFromYear_less_add: "DayFromYear y < DayFromYear (y + 1 + int n)"
proof (induction n)
  case 0
  then show ?case using DayFromYear_step [of y] InLeapYear_cases [of y] by auto
next
  case (Suc n)
  have "DayFromYear (y + 1 + int n) < DayFromYear (y + 1 + int n + 1)"
    using DayFromYear_step [of "y + 1 + int n"] InLeapYear_cases [of "y + 1 + int n"] by auto
  with Suc show ?case by (simp add: add.assoc add.commute)
qed

lemma DayFromYear_strict_mono: "y < z \<Longrightarrow> DayFromYear y < DayFromYear z"
proof -
  assume "y < z"
  then have "z = y + 1 + int (nat (z - y - 1))" by simp
  then show ?thesis using DayFromYear_less_add [of y "nat (z - y - 1)"] by simp
qed

lemma estimate_bounds:
  fixes d :: int
  defines "y \<equiv> 1970 + (400 * d) div 146097"
  shows "DayFromYear (y - 1) \<le> d" and "d < DayFromYear (y + 2)"
proof -
  define x where "x = (400 * d) div 146097"
  have x: "146097 * x \<le> 400 * d" "400 * d < 146097 * x + 146097"
    unfolding x_def using div_bounds [of 146097 "400 * d"] by simp_all
  have y: "y = 1970 + x" by (simp add: y_def x_def)
  define a1 where "a1 = x div 4"
  define a2 where "a2 = (x + 68) div 100"
  define a3 where "a3 = (x + 368) div 400"
  have a: "4 * a1 \<le> x" "x + 68 < 100 * a2 + 100" "400 * a3 \<le> x + 368"
    unfolding a1_def a2_def a3_def
    using div_bounds [of 4 x] div_bounds [of 100 "x + 68"] div_bounds [of 400 "x + 368"]
    by simp_all
  have "365 * x - 365 + a1 - a2 + a3 \<le> d" using a x(1) by linarith
  moreover have "DayFromYear (y - 1) = 365 * x - 365 + a1 - a2 + a3"
    by (simp add: DayFromYear_def y a1_def a2_def a3_def add.commute)
  ultimately show "DayFromYear (y - 1) \<le> d" by simp
  define b1 where "b1 = (x + 3) div 4"
  define b2 where "b2 = (x + 71) div 100"
  define b3 where "b3 = (x + 371) div 400"
  have b: "x + 3 < 4 * b1 + 4" "100 * b2 \<le> x + 71" "x + 371 < 400 * b3 + 400"
    unfolding b1_def b2_def b3_def
    using div_bounds [of 4 "x + 3"] div_bounds [of 100 "x + 71"] div_bounds [of 400 "x + 371"]
    by simp_all
  have "d < 365 * x + 730 + b1 - b2 + b3" using b x(2) by linarith
  moreover have "DayFromYear (y + 2) = 365 * x + 730 + b1 - b2 + b3"
    by (simp add: DayFromYear_def y b1_def b2_def b3_def add.commute)
  ultimately show "d < DayFromYear (y + 2)" by simp
qed

lemma YearFromDay_spec:
  "DayFromYear (YearFromDay d) \<le> d" "d < DayFromYear (YearFromDay d + 1)"
  using estimate_bounds [of d]
  by (auto simp: YearFromDay_def Let_def add.commute add.assoc)

lemma YearFromDay_unique:
  assumes "DayFromYear y \<le> d" "d < DayFromYear (y + 1)"
  shows "YearFromDay d = y"
proof (rule ccontr)
  assume ne: "YearFromDay d \<noteq> y"
  show False
  proof (cases "YearFromDay d < y")
    case True
    then have "DayFromYear (YearFromDay d + 1) \<le> DayFromYear y"
      using DayFromYear_strict_mono [of "YearFromDay d + 1" y] by (cases "YearFromDay d + 1 = y") auto
    then show False using assms(1) YearFromDay_spec(2) [of d] by linarith
  next
    case False
    with ne have "y + 1 \<le> YearFromDay d" by simp
    then have "DayFromYear (y + 1) \<le> DayFromYear (YearFromDay d)"
      using DayFromYear_strict_mono [of "y + 1" "YearFromDay d"] by (cases "y + 1 = YearFromDay d") auto
    then show False using assms(2) YearFromDay_spec(1) [of d] by linarith
  qed
qed

lemma monthStart_simps:
  "monthStart l 0 = 0" "monthStart l (Suc 0) = 31" "monthStart l (Suc (Suc 0)) = 59 + l"
  "monthStart l 1 = 31" "monthStart l 2 = 59 + l" "monthStart l 3 = 90 + l"
  "monthStart l 4 = 120 + l" "monthStart l 5 = 151 + l" "monthStart l 6 = 181 + l"
  "monthStart l 7 = 212 + l" "monthStart l 8 = 243 + l" "monthStart l 9 = 273 + l"
  "monthStart l 10 = 304 + l" "monthStart l 11 = 334 + l" "monthStart l 12 = 365 + l"
  by (simp_all add: monthStart_def)

lemma month_cases:
  "(m :: nat) \<le> 11 \<Longrightarrow> m \<in> {0, 1, 2, 3, 4, 5, 6, 7, 8, 9, 10, 11}"
  by simp arith

lemma MonthFromDay_le: "MonthFromDay l dw \<le> 11"
  by (simp add: MonthFromDay_def)

lemma MonthFromDay_lower:
  assumes "l = 0 \<or> l = 1" "0 \<le> dw"
  shows "monthStart l (MonthFromDay l dw) \<le> dw"
  using assms by (elim disjE; simp add: MonthFromDay_def monthStart_simps)

lemma MonthFromDay_upper:
  assumes "l = 0 \<or> l = 1" "dw < 365 + l"
  shows "dw < monthStart l (MonthFromDay l dw + 1)"
  using assms by (elim disjE; simp add: MonthFromDay_def monthStart_simps)

lemma MonthFromDay_unique:
  assumes "l = 0 \<or> l = 1" "m \<le> 11" "monthStart l m \<le> dw" "dw < monthStart l (m + 1)"
  shows "MonthFromDay l dw = m"
  using month_cases [OF assms(2)] assms(1,3,4)
  by (elim disjE insertE emptyE; simp add: MonthFromDay_def monthStart_simps)

lemma monthStart_bounds:
  assumes "l = 0 \<or> l = 1" "m \<le> 11"
  shows "0 \<le> monthStart l m" and "monthStart l (m + 1) \<le> 365 + l"
    and "monthStart l (m + 1) - monthStart l m \<le> 31"
  using month_cases [OF assms(2)] assms(1)
  by (elim disjE insertE emptyE; simp add: monthStart_simps)+

lemma digitVal_digitChar: "0 \<le> v \<Longrightarrow> v < 10 \<Longrightarrow> digitVal (digitChar v) = Some v"
  by (drule (1) digit_cases) (auto simp: digitChar_values digitVal_def)

lemma digitVal_SomeD:
  assumes "digitVal c = Some v"
  shows "0 \<le> v" and "v < 10" and "digitChar v = c"
  using assms by (auto simp: digitVal_def digitChar_values split: if_splits)

lemma digits4:
  fixes v :: int
  assumes "0 \<le> v" "v < 10000"
  shows "10 * (10 * (10 * (v div 1000 mod 10) + v div 100 mod 10) + v div 10 mod 10) + v mod 10 = v"
proof -
  define q1 where "q1 = v div 10"
  define q2 where "q2 = q1 div 10"
  define q3 where "q3 = q2 div 10"
  define r0 where "r0 = v mod 10"
  define r1 where "r1 = q1 mod 10"
  define r2 where "r2 = q2 mod 10"
  have e2: "v div 100 = q2" using zdiv_zmult2_eq [of 10 v 10] by (simp add: q2_def q1_def)
  have e3: "v div 1000 = q3" using zdiv_zmult2_eq [of 10 v 100] e2 by (simp add: q3_def)
  have "0 \<le> q3" "q3 < 10" using assms e3 by simp_all
  then have m3: "q3 mod 10 = q3" by simp
  have m: "v = 10 * q1 + r0" "q1 = 10 * q2 + r1" "q2 = 10 * q3 + r2"
    by (simp_all add: q1_def q2_def q3_def r0_def r1_def r2_def)
  have "10 * (10 * (10 * q3 + r2) + r1) + r0 = v"
    by (simp only: m(3) [symmetric] m(2) [symmetric] m(1) [symmetric])
  then show ?thesis
    unfolding e2 e3 m3 q1_def [symmetric] r0_def [symmetric] r1_def [symmetric] r2_def [symmetric] .
qed

lemma digitVal_digit_mod: "digitVal (digitChar (v mod 10)) = Some (v mod 10)"
  by (rule digitVal_digitChar) simp_all

lemma parseDigits_pad2:
  assumes "0 \<le> v" "v < 100"
  shows "parseDigits 0 (pad2 v) = Some v"
proof -
  have "0 \<le> v div 10" "v div 10 < 10" using assms by simp_all
  then have "v div 10 mod 10 = v div 10" by simp
  then have v: "10 * (v div 10 mod 10) + v mod 10 = v" by simp
  have "parseDigits 0 (pad2 v) = Some (10 * (v div 10 mod 10) + v mod 10)"
    by (simp only: pad2_def parseDigits.simps digitVal_digit_mod option.case
        mult_zero_right add_0)
  then show ?thesis by (simp only: v)
qed

lemma parseDigits_pad4:
  assumes "0 \<le> v" "v < 10000"
  shows "parseDigits 0 (pad4 v) = Some v"
proof -
  have "parseDigits 0 (pad4 v) =
      Some (10 * (10 * (10 * (v div 1000 mod 10) + v div 100 mod 10) + v div 10 mod 10) + v mod 10)"
    by (simp only: pad4_def parseDigits.simps digitVal_digit_mod option.case
        mult_zero_right add_0)
  then show ?thesis by (simp only: digits4 [OF assms])
qed

lemma parseDigits2_SomeD:
  assumes "parseDigits 0 [a, b] = Some v"
  shows "0 \<le> v" and "v < 100" and "pad2 v = [a, b]"
proof -
  obtain x y where xy: "digitVal a = Some x" "digitVal b = Some y" "v = 10 * x + y"
    using assms by (auto split: option.splits)
  note d = digitVal_SomeD [OF xy(1)] digitVal_SomeD [OF xy(2)]
  show "0 \<le> v" and "v < 100" using d xy(3) by simp_all
  have "v div 10 mod 10 = x" "v mod 10 = y" using d xy(3) by simp_all
  then show "pad2 v = [a, b]" using d by (simp add: pad2_def)
qed

lemma parseDigits4_SomeD:
  assumes "parseDigits 0 [a, b, c, d] = Some v"
  shows "0 \<le> v" and "v < 10000" and "pad4 v = [a, b, c, d]"
proof -
  obtain x y z w where xy: "digitVal a = Some x" "digitVal b = Some y"
      "digitVal c = Some z" "digitVal d = Some w" "v = 10 * (10 * (10 * x + y) + z) + w"
    using assms by (auto split: option.splits)
  note dg = digitVal_SomeD [OF xy(1)] digitVal_SomeD [OF xy(2)]
    digitVal_SomeD [OF xy(3)] digitVal_SomeD [OF xy(4)]
  show "0 \<le> v" and "v < 10000" using dg xy(5) by simp_all
  define k2 where "k2 = 10 * x + y"
  define k1 where "k1 = 10 * k2 + z"
  have v1: "v = 10 * k1 + w" by (simp add: k1_def k2_def xy(5))
  have q1: "v div 10 = k1" and r1: "v mod 10 = w"
    using dg(10,11) v1 by simp_all
  have q2: "v div 100 = k2" and r2: "v div 10 mod 10 = z"
    using dg(7,8) q1 zdiv_zmult2_eq [of 10 v 10] by (simp_all add: k1_def)
  have q3: "v div 1000 = x" and r3: "v div 100 mod 10 = y"
    using dg(4,5) q2 zdiv_zmult2_eq [of 10 v 100] by (simp_all add: k2_def)
  have r4: "v div 1000 mod 10 = x" using dg(1,2) q3 by simp
  show "pad4 v = [a, b, c, d]" using dg r1 r2 r3 r4 by (simp add: pad4_def)
qed

lemma msPerDay_pos: "0 < msPerDay"
  by (simp add: msPerDay_def)

lemma msPerDay_div: "(msPerDay * d) div msPerDay = d"
  using msPerDay_pos by simp

lemma pad4_parse:
  "0 \<le> v \<Longrightarrow> v < 10000 \<Longrightarrow>
   \<exists>a b c d. pad4 v = [a, b, c, d] \<and> parseDigits 0 [a, b, c, d] = Some v"
  using parseDigits_pad4 [of v] by (simp add: pad4_def)

lemma pad2_parse:
  "0 \<le> v \<Longrightarrow> v < 100 \<Longrightarrow> \<exists>a b. pad2 v = [a, b] \<and> parseDigits 0 [a, b] = Some v"
  using parseDigits_pad2 [of v] by (simp add: pad2_def)

lemma dayWithinYear_bounds:
  "0 \<le> d - DayFromYear (YearFromDay d)"
  "d - DayFromYear (YearFromDay d) < 365 + InLeapYear (YearFromDay d)"
  using YearFromDay_spec [of d] DayFromYear_step [of "YearFromDay d"] by simp_all

lemma parseISODate_toISODate:
  assumes "0 \<le> YearFromDay (t div msPerDay)" "YearFromDay (t div msPerDay) \<le> 9999"
  shows "parseISODate (toISODate t) = Some (msPerDay * (t div msPerDay))"
proof -
  define d where "d = t div msPerDay"
  define y where "y = YearFromDay d"
  define l where "l = InLeapYear y"
  define dw where "dw = d - DayFromYear y"
  define m where "m = MonthFromDay l dw"
  define dt where "dt = dw - monthStart l m + 1"
  have l: "l = 0 \<or> l = 1" using InLeapYear_cases by (simp add: l_def)
  have dw: "0 \<le> dw" "dw < 365 + l"
    using dayWithinYear_bounds [of d] by (simp_all add: dw_def y_def l_def)
  have m: "m \<le> 11" "monthStart l m \<le> dw" "dw < monthStart l (m + 1)"
    using MonthFromDay_le MonthFromDay_lower [OF l dw(1)] MonthFromDay_upper [OF l dw(2)]
    by (simp_all add: m_def)
  have dt: "1 \<le> dt" "dt \<le> DaysInMonth y m" "dt \<le> 31"
    using m monthStart_bounds(3) [OF l m(1)] by (simp_all add: dt_def DaysInMonth_def l_def)
  have y: "0 \<le> y" "y \<le> 9999" using assms by (simp_all add: y_def d_def)
  obtain y1 y2 y3 y4 where ys: "pad4 y = [y1, y2, y3, y4]"
      "parseDigits 0 [y1, y2, y3, y4] = Some y"
  proof -
    have "0 \<le> y" "y < 10000" using y by simp_all
    from pad4_parse [OF this] show ?thesis using that by blast
  qed
  obtain m1 m2 where ms: "pad2 (int m + 1) = [m1, m2]" "parseDigits 0 [m1, m2] = Some (int m + 1)"
  proof -
    have "0 \<le> int m + 1" "int m + 1 < 100" using m(1) by simp_all
    from pad2_parse [OF this] show ?thesis using that by blast
  qed
  obtain d1 d2 where ds: "pad2 dt = [d1, d2]" "parseDigits 0 [d1, d2] = Some dt"
  proof -
    have "0 \<le> dt" "dt < 100" using dt by simp_all
    from pad2_parse [OF this] show ?thesis using that by blast
  qed
  have str: "toISODate t = [y1, y2, y3, y4, CHR ''-'', m1, m2, CHR ''-'', d1, d2]"
    using y ys(1) ms(1) ds(1)
    by (simp add: toISODate_def Let_def formatYear_def
        d_def [symmetric] y_def [symmetric] l_def [symmetric] dw_def [symmetric]
        m_def [symmetric] dt_def [symmetric])
  have "MakeDay y m dt = d"
    by (simp add: MakeDay_def dt_def dw_def l_def)
  then show ?thesis
    unfolding str using ys(2) ms(2) ds(2) y dt m(1)
    by (simp add: d_def)
qed

lemma parseISODate_toISODate_outside:
  assumes "\<not> (0 \<le> YearFromDay (t div msPerDay) \<and> YearFromDay (t div msPerDay) \<le> 9999)"
  shows "parseISODate (toISODate t) = None"
  using assms by (simp add: toISODate_def Let_def formatYear_def pad6_def pad4_def pad2_def)

lemma parseISODate_toISODate_SomeD:
  "parseISODate (toISODate t) = Some t' \<Longrightarrow> t' = msPerDay * (t div msPerDay)"
  using parseISODate_toISODate [of t] parseISODate_toISODate_outside [of t] by fastforce

lemma parseISODate_SomeE:
  assumes "parseISODate s = Some t"
  obtains y1 y2 y3 y4 m1 m2 d1 d2 y m dt where
    "s = [y1, y2, y3, y4, CHR ''-'', m1, m2, CHR ''-'', d1, d2]"
    "parseDigits 0 [y1, y2, y3, y4] = Some y"
    "parseDigits 0 [m1, m2] = Some m"
    "parseDigits 0 [d1, d2] = Some dt"
    "1 \<le> m" "m \<le> 12" "1 \<le> dt" "dt \<le> DaysInMonth y (nat (m - 1))"
    "t = msPerDay * MakeDay y (nat (m - 1)) dt"
proof (cases s rule: parseISODate.cases)
  case (1 y1 y2 y3 y4 h1 m1 m2 h2 d1 d2)
  define P1 where "P1 = parseDigits 0 [y1, y2, y3, y4]"
  define P2 where "P2 = parseDigits 0 [m1, m2]"
  define P3 where "P3 = parseDigits 0 [d1, d2]"
  have "parseISODate s =
     (if h1 = CHR ''-'' \<and> h2 = CHR ''-'' then
        (case (P1, P2, P3) of
           (Some y, Some m, Some dt) \<Rightarrow>
             if 1 \<le> m \<and> m \<le> 12 \<and> 1 \<le> dt \<and> dt \<le> DaysInMonth y (nat (m - 1))
             then Some (msPerDay * MakeDay y (nat (m - 1)) dt)
             else None
         | _ \<Rightarrow> None)
      else None)"
    unfolding 1 P1_def P2_def P3_def by (simp only: parseISODate.simps)
  with assms obtain y m dt where r: "h1 = CHR ''-''" "h2 = CHR ''-''"
      "P1 = Some y" "P2 = Some m" "P3 = Some dt"
      "1 \<le> m" "m \<le> 12" "1 \<le> dt" "dt \<le> DaysInMonth y (nat (m - 1))"
      "t = msPerDay * MakeDay y (nat (m - 1)) dt"
    by (auto split: if_splits option.splits)
  show ?thesis
    using r 1 by (intro that [of y1 y2 y3 y4 m1 m2 d1 d2 y m dt]) (simp_all only: P1_def P2_def P3_def)
qed (use assms in simp_all)

lemma toISODate_parseISODate:
  assumes "parseISODate s = Some t"
  shows "toISODate t = s"
proof -
  from assms obtain y1 y2 y3 y4 m1 m2 d1 d2 y m' dt where p:
    "s = [y1, y2, y3, y4, CHR ''-'', m1, m2, CHR ''-'', d1, d2]"
    "parseDigits 0 [y1, y2, y3, y4] = Some y"
    "parseDigits 0 [m1, m2] = Some m'"
    "parseDigits 0 [d1, d2] = Some dt"
    "1 \<le> m'" "m' \<le> 12" "1 \<le> dt" "dt \<le> DaysInMonth y (nat (m' - 1))"
    "t = msPerDay * MakeDay y (nat (m' - 1)) dt"
    by (rule parseISODate_SomeE)
  define m where "m = nat (m' - 1)"
  define l where "l = InLeapYear y"
  define dw where "dw = monthStart l m + dt - 1"
  have l: "l = 0 \<or> l = 1" using InLeapYear_cases by (simp add: l_def)
  have m: "m \<le> 11" "int m + 1 = m'" using p(5,6) by (simp_all add: m_def)
  have dw: "monthStart l m \<le> dw" "dw < monthStart l (m + 1)"
    using p(7,8) by (simp_all add: dw_def DaysInMonth_def l_def m_def)
  have dw': "0 \<le> dw" "dw < 365 + l"
    using dw monthStart_bounds(1,2) [OF l m(1)] by linarith+
  have day: "t div msPerDay = DayFromYear y + dw"
    unfolding p(9) msPerDay_div by (simp add: MakeDay_def dw_def l_def m_def)
  have year: "YearFromDay (DayFromYear y + dw) = y"
    using dw' DayFromYear_step [of y]
    by (intro YearFromDay_unique) (simp_all add: l_def)
  have month: "MonthFromDay (InLeapYear y) dw = m"
    using l m(1) dw unfolding l_def by (rule MonthFromDay_unique)
  have ystr: "pad4 y = [y1, y2, y3, y4]" "0 \<le> y" "y < 10000"
    using parseDigits4_SomeD [OF p(2)] by simp_all
  have mstr: "pad2 (int m + 1) = [m1, m2]"
    using parseDigits2_SomeD [OF p(3)] m(2) by simp
  have dstr: "pad2 dt = [d1, d2]"
    using parseDigits2_SomeD [OF p(4)] by simp
  have dt: "dw - monthStart (InLeapYear y) m + 1 = dt" by (simp add: dw_def l_def)
  show ?thesis
    using ystr mstr dstr
    by (simp add: toISODate_def Let_def day year month dt formatYear_def p(1))
qed

lemma parseISODate_midnight:
  "parseISODate s = Some t \<Longrightarrow> msPerDay * (t div msPerDay) = t"
  by (erule parseISODate_SomeE) (simp add: msPerDay_div)

section \<open>The longest streak\<close>

lemma scanHistory_ge:
  "max L T \<le> max (fst (scanHistory pf rest prev L T)) (snd (scanHistory pf rest prev L T))"
proof (induction rest arbitrary: prev L T)
  case Nil
  then show ?case by simp
next
  case (Cons c rest)
  show ?case
    using Cons.IH [of L "T + 1" c] Cons.IH [of "max L T" 1 c] by auto
qed




lemma longestStreak_scan:
  "longestStreak (calculateStreaks pf now h) =
     (case sortedCheckIns pf h of
        [] \<Rightarrow> 0
      | c # rest \<Rightarrow> max (fst (scanHistory pf rest c 0 1)) (snd (scanHistory pf rest c 0 1)))"
proof (cases "checkIns h = []")
  case True
  then show ?thesis
    by (simp add: calculateStreaks_def sortedCheckIns_def removeDuplicates_Nil)
next
  case False
  then show ?thesis
    by (simp add: calculateStreaks_def Let_def split: list.splits prod.splits)
qed





lemma sortedCheckIns_Nil_iff: "(sortedCheckIns pf h = []) = (checkIns h = [])"
  using set_sortWith [of "\<lambda>a b. localeCompare pf b a" "removeDuplicates (map stripTime (checkIns h))"]
  by (auto simp: sortedCheckIns_def set_removeDuplicates simp del: set_sortWith)



section \<open>Insensitivity to duplicates and time components\<close>

lemma set_sortedCheckIns: "set (sortedCheckIns pf h) = calendarDates (checkIns h)"
  by (simp add: sortedCheckIns_def set_sortWith set_removeDuplicates calendarDates_def)

lemma distinct_sortedCheckIns: "distinct (sortedCheckIns pf h)"
  by (simp add: sortedCheckIns_def distinct_sortWith distinct_removeDuplicates)

lemma sorted_sortedCheckIns:
  assumes "collatesStrictly pf (calendarDates (checkIns h))"
  shows "sorted_wrt (\<lambda>a b. localeCompare pf b a \<le> 0) (sortedCheckIns pf h)"
proof -
  let ?xs = "removeDuplicates (map stripTime (checkIns h))"
  have S: "set ?xs = calendarDates (checkIns h)"
    by (simp add: set_removeDuplicates calendarDates_def)
  show ?thesis
    unfolding sortedCheckIns_def
  proof (rule sorted_sortWith)
    show "localeCompare pf b a \<le> 0 \<or> localeCompare pf a b \<le> 0"
      if "a \<in> set ?xs" "b \<in> set ?xs" for a b
      using that assms unfolding S collatesStrictly_def by blast
    show "localeCompare pf c a \<le> 0"
      if "a \<in> set ?xs" "b \<in> set ?xs" "c \<in> set ?xs"
        "localeCompare pf b a \<le> 0" "localeCompare pf c b \<le> 0" for a b c
      using that assms unfolding S collatesStrictly_def by blast
  qed
qed

lemma sortedCheckIns_cong:
  assumes "calendarDates (checkIns h') = calendarDates (checkIns h)"
    and "collatesStrictly pf (calendarDates (checkIns h))"
  shows "sortedCheckIns pf h' = sortedCheckIns pf h"
proof (rule sorted_wrt_unique)
  show "sorted_wrt (\<lambda>a b. localeCompare pf b a \<le> 0) (sortedCheckIns pf h)"
    using assms(2) by (rule sorted_sortedCheckIns)
  show "sorted_wrt (\<lambda>a b. localeCompare pf b a \<le> 0) (sortedCheckIns pf h')"
    using assms by (intro sorted_sortedCheckIns) simp
  show "distinct (sortedCheckIns pf h)" and "distinct (sortedCheckIns pf h')"
    by (rule distinct_sortedCheckIns)+
  show "set (sortedCheckIns pf h') = set (sortedCheckIns pf h)"
    using assms(1) by (simp add: set_sortedCheckIns)
  show "a = b"
    if "a \<in> set (sortedCheckIns pf h')" "b \<in> set (sortedCheckIns pf h')"
      "localeCompare pf b a \<le> 0" "localeCompare pf a b \<le> 0" for a b
    using that assms unfolding set_sortedCheckIns collatesStrictly_def by blast
qed

lemma calculateStreaks_sorted:
  "calculateStreaks pf now h =
     (case sortedCheckIns pf h of
        [] \<Rightarrow> \<lparr>currentStreak = 0, longestStreak = 0\<rparr>
      | c # rest \<Rightarrow>
          \<lparr>currentStreak = (if isToday now c then countBackwards pf rest (getYesterdayDateString pf now) 1 else 0),
           longestStreak = max (fst (scanHistory pf rest c 0 1)) (snd (scanHistory pf rest c 0 1))\<rparr>)"
proof (cases "checkIns h = []")
  case True
  then show ?thesis
    by (simp add: calculateStreaks_def sortedCheckIns_def removeDuplicates_Nil)
next
  case False
  then show ?thesis
    by (simp add: calculateStreaks_def Let_def split: list.splits prod.splits)
qed

lemma calculateStreaks_sorted_cong:
  "sortedCheckIns pf h' = sortedCheckIns pf h \<Longrightarrow>
   calculateStreaks pf now h' = calculateStreaks pf now h"
  by (simp add: calculateStreaks_sorted)

lemma calculateStreaks_fields:
  "calculateStreaks pf now (h\<lparr>currentStreak := a, longestStreak := b\<rparr>) = calculateStreaks pf now h"
  by (rule calculateStreaks_sorted_cong) (simp add: sortedCheckIns_def)

lemma calculateStreaks_cong:
  assumes "calendarDates (checkIns h') = calendarDates (checkIns h)"
    and "collatesStrictly pf (calendarDates (checkIns h))"
  shows "calculateStreaks pf now h' = calculateStreaks pf now h"
  using assms by (intro calculateStreaks_sorted_cong sortedCheckIns_cong)

lemma sortedCheckIns_normalised:
  "sortedCheckIns pf (h\<lparr>checkIns := removeDuplicates (map stripTime (checkIns h))\<rparr>) = sortedCheckIns pf h"
proof -
  let ?xs = "removeDuplicates (map stripTime (checkIns h))"
  have "stripTime x = x" if "x \<in> set ?xs" for x
    using that by (auto simp: set_removeDuplicates stripTime_idem)
  then have "map stripTime ?xs = ?xs" by (intro map_idI)
  moreover have "removeDuplicates ?xs = ?xs"
    by (intro removeDuplicates_distinct distinct_removeDuplicates)
  ultimately show ?thesis by (simp add: sortedCheckIns_def)
qed

text \<open>
  Claim C7. For every check-in log and every clock reading, \<open>calculateStreaks\<close> is
  insensitive to duplicates and to time components: on every platform the log gives
  exactly the same two streaks as its deduplicated, date-only form. Moreover any two
  logs with the same set of calendar dates (such as a log and the same log with a
  timestamped duplicate of one of its dates) give the same streaks, whenever the
  collation orders these dates strictly, as collation by character code always does.
\<close>

theorem duplicates_and_times_ignored:
  "calculateStreaks pf now (h\<lparr>checkIns := removeDuplicates (map stripTime (checkIns h))\<rparr>)
     = calculateStreaks pf now h \<and>
   (\<forall>h'. calendarDates (checkIns h') = calendarDates (checkIns h) \<longrightarrow>
         calculateStreaks (pf\<lparr>localeCompare := compareCodeUnits\<rparr>) now h'
           = calculateStreaks (pf\<lparr>localeCompare := compareCodeUnits\<rparr>) now h) \<and>
   (collatesStrictly pf (calendarDates (checkIns h)) \<longrightarrow>
      (\<forall>h'. calendarDates (checkIns h') = calendarDates (checkIns h) \<longrightarrow>
            calculateStreaks pf now h' = calculateStreaks pf now h))"
proof (intro conjI allI impI)
  show "calculateStreaks pf now (h\<lparr>checkIns := removeDuplicates (map stripTime (checkIns h))\<rparr>)
     = calculateStreaks pf now h"
    by (rule calculateStreaks_sorted_cong) (rule sortedCheckIns_normalised)
  show "calculateStreaks (pf\<lparr>localeCompare := compareCodeUnits\<rparr>) now h'
           = calculateStreaks (pf\<lparr>localeCompare := compareCodeUnits\<rparr>) now h"
    if "calendarDates (checkIns h') = calendarDates (checkIns h)" for h'
    using that by (intro calculateStreaks_cong compareCodeUnits_strict) simp_all
  show "calculateStreaks pf now h' = calculateStreaks pf now h"
    if "collatesStrictly pf (calendarDates (checkIns h))"
      "calendarDates (checkIns h') = calendarDates (checkIns h)" for h'
    using that by (intro calculateStreaks_cong)
qed

theorem duplicates_and_times_ignored_witness:
  "collatesStrictly utc (calendarDates (checkIns (habitWith [''2024-02-01'', ''2024-01-31'']))) \<and>
   calendarDates (checkIns (habitWith [''2024-02-01'', ''2024-01-31'', ''2024-02-01T07:30:00''])) =
   calendarDates (checkIns (habitWith [''2024-02-01'', ''2024-01-31''])) \<and>
   calculateStreaks utc feb1 (habitWith [''2024-02-01'', ''2024-01-31'', ''2024-02-01T07:30:00'']) =
   calculateStreaks utc feb1 (habitWith [''2024-02-01'', ''2024-01-31''])"
proof -
  have a: "calendarDates (checkIns (habitWith [''2024-02-01'', ''2024-01-31'', ''2024-02-01T07:30:00''])) =
      calendarDates (checkIns (habitWith [''2024-02-01'', ''2024-01-31'']))"
    by (simp add: calendarDates_def habitWith_def stripTime_def insert_commute)
  have b: "collatesStrictly utc (calendarDates (checkIns (habitWith [''2024-02-01'', ''2024-01-31''])))"
    by (rule compareCodeUnits_strict) (simp add: utc_def)
  with duplicates_and_times_ignored [of utc feb1 "habitWith [''2024-02-01'', ''2024-01-31'']"] a
  show ?thesis by blast
qed

section \<open>The current streak\<close>

lemma previousDay_defined:
  "getDaysDifference pf c e = Some 0 \<Longrightarrow> \<exists>p. previousDay pf c = Some p"
  by (auto simp: getDaysDifference_def previousDay_def split: option.splits)

text \<open>On every platform, the difference of two well-formed dates is the number of days
  between them.\<close>

lemma toISODate_cong: "a div msPerDay = b div msPerDay \<Longrightarrow> toISODate a = toISODate b"
  by (simp add: toISODate_def)

lemma dayOf_SomeD:
  assumes "dayOf s = Some d"
  shows "parseISODate s = Some (msPerDay * d)" and "toISODate (msPerDay * d) = s"
proof -
  from assms obtain t where t: "parseISODate s = Some t" "d = t div msPerDay"
    by (auto simp: dayOf_def)
  then show "parseISODate s = Some (msPerDay * d)" using parseISODate_midnight by simp
  then show "toISODate (msPerDay * d) = s" by (rule toISODate_parseISODate)
qed

lemma dayOf_I: "parseISODate s = Some (msPerDay * d) \<Longrightarrow> dayOf s = Some d"
  by (simp add: dayOf_def msPerDay_div)

lemma Date_parse_dayOf: "dayOf s = Some d \<Longrightarrow> Date_parse pf s = Some (msPerDay * d)"
  by (simp add: Date_parse_def dayOf_SomeD(1))

lemma getDaysDifference_days:
  assumes "dayOf a = Some x" "dayOf b = Some y"
  shows "getDaysDifference pf a b = Some \<bar>y - x\<bar>"
proof -
  have "\<bar>msPerDay * y - msPerDay * x\<bar> = msPerDay * \<bar>y - x\<bar>"
    using msPerDay_pos by (simp add: right_diff_distrib [symmetric] abs_mult)
  then have "\<bar>msPerDay * y - msPerDay * x\<bar> div msPerDay = \<bar>y - x\<bar>"
    by (simp only: msPerDay_div)
  then show ?thesis
    using assms by (simp add: getDaysDifference_def Date_parse_dayOf)
qed

text \<open>\<^verbatim>\<open>d.setDate(d.getDate() - 1)\<close> moves a date object to the same time of day one date
  earlier on the local clock; where local time has one offset from UTC, that is 24
  hours earlier.\<close>

lemma MakeDay_dayBefore:
  "MakeDay (YearFromTime t) (MonthFromTime t) (DateFromTime t - 1) = Day t - 1"
  by (simp add: MakeDay_def MonthFromTime_def DateFromTime_def Let_def)

lemma setDate_dayBefore:
  "setDate pf (getDate pf t - 1) t = UTC pf (LocalTime pf t - msPerDay)"
proof -
  have "MakeDate (Day lt - 1) (TimeWithinDay lt) = lt - msPerDay" for lt
  proof -
    have "lt = msPerDay * (lt div msPerDay) + lt mod msPerDay" by simp
    then show ?thesis
      by (simp add: MakeDate_def Day_def TimeWithinDay_def algebra_simps)
  qed
  then show ?thesis
    by (simp add: setDate_def getDate_def Let_def MakeDay_dayBefore)
qed

lemma dayBefore_fixedOffset:
  "fixedOffset pf \<Longrightarrow> setDate pf (getDate pf t - 1) t = t - msPerDay"
proof -
  assume "fixedOffset pf"
  then have "LocalTZA pf (t + LocalTZA pf t True - msPerDay) False = LocalTZA pf t True"
    unfolding fixedOffset_def by blast
  then show ?thesis by (simp add: setDate_dayBefore UTC_def LocalTime_def)
qed

text \<open>The day before a well-formed date other than 0000-01-01 is written with a
  four-digit year, so it is a well-formed date again.\<close>

lemma day_before: "(msPerDay * d - msPerDay) div msPerDay = d - 1"
proof -
  have "msPerDay * d - msPerDay = msPerDay * (d - 1)" by (simp add: algebra_simps)
  then show ?thesis by (simp only: msPerDay_div)
qed

lemma yesterday_day: "(now - msPerDay) div msPerDay = now div msPerDay - 1"
  using msPerDay_pos div_add_self2 [of msPerDay "now - msPerDay"] by simp

lemma DayFromYear_mono: "y \<le> z \<Longrightarrow> DayFromYear y \<le> DayFromYear z"
  using DayFromYear_strict_mono [of y z] by (cases "y = z") auto

lemma wellFormed_year:
  assumes "dayOf s = Some d"
  shows "0 \<le> YearFromDay d" "YearFromDay d \<le> 9999"
proof -
  have s: "parseISODate (toISODate (msPerDay * d)) = Some (msPerDay * d)"
    using dayOf_SomeD [OF assms] by simp
  have "0 \<le> YearFromDay d \<and> YearFromDay d \<le> 9999"
  proof (rule ccontr)
    assume "\<not> (0 \<le> YearFromDay d \<and> YearFromDay d \<le> 9999)"
    then have "parseISODate (toISODate (msPerDay * d)) = None"
      by (intro parseISODate_toISODate_outside) (simp add: msPerDay_div)
    with s show False by simp
  qed
  then show "0 \<le> YearFromDay d" "YearFromDay d \<le> 9999" by simp_all
qed

lemma firstDay: "toISODate (msPerDay * DayFromYear 0) = ''0000-01-01''"
  by code_simp

lemma dayBefore_wellFormed:
  assumes "ordinaryDate s" "dayOf s = Some d"
  shows "dayOf (toISODate (msPerDay * d - msPerDay)) = Some (d - 1)"
proof -
  define y where "y = YearFromDay d"
  define y' where "y' = YearFromDay (d - 1)"
  have y: "0 \<le> y" "y \<le> 9999" using wellFormed_year [OF assms(2)] by (simp_all add: y_def)
  have d: "DayFromYear y \<le> d" "d < DayFromYear (y + 1)"
    using YearFromDay_spec [of d] by (simp_all add: y_def)
  have d': "DayFromYear y' \<le> d - 1" "d - 1 < DayFromYear (y' + 1)"
    using YearFromDay_spec [of "d - 1"] by (simp_all add: y'_def)
  have "d \<noteq> DayFromYear 0"
    using assms firstDay dayOf_SomeD(2) [OF assms(2)] by (auto simp: ordinaryDate_def)
  moreover have "DayFromYear 0 \<le> DayFromYear y" using y(1) by (rule DayFromYear_mono)
  ultimately have low: "DayFromYear 0 \<le> d - 1" using d(1) by simp
  have "0 \<le> y'"
  proof (rule ccontr)
    assume "\<not> 0 \<le> y'"
    then have "DayFromYear (y' + 1) \<le> DayFromYear 0" by (intro DayFromYear_mono) simp
    with low d'(2) show False by simp
  qed
  moreover have "y' \<le> 9999"
  proof (rule ccontr)
    assume "\<not> y' \<le> 9999"
    then have "DayFromYear (y + 1) \<le> DayFromYear y'" using y(2) by (intro DayFromYear_mono) simp
    with d(2) d'(1) show False by simp
  qed
  ultimately have "parseISODate (toISODate (msPerDay * d - msPerDay))
      = Some (msPerDay * ((msPerDay * d - msPerDay) div msPerDay))"
    by (intro parseISODate_toISODate) (simp_all add: day_before y'_def)
  then show ?thesis by (simp add: dayOf_def day_before msPerDay_div)
qed

lemma previousDay_fixedOffset:
  assumes "fixedOffset pf" "ordinaryDate c" "dayOf c = Some d"
  shows "\<exists>p. previousDay pf c = Some p \<and> dayOf p = Some (d - 1)"
  using assms dayBefore_wellFormed [OF assms(2,3)]
  by (simp add: previousDay_def Date_parse_dayOf dayBefore_fixedOffset)

text \<open>
  Where local time has one offset from UTC, and for a log of well-formed dates other
  than 0000-01-01, the current streak of \<open>calculateStreaks\<close> is the one the
  specification describes: 0 unless the most recent normalised entry equals today;
  otherwise today counts as 1, each following entry that is the expected predecessor
  day adds 1, and the count stops at the first entry that is not.
\<close>

lemma countBackwards_walk:
  assumes "fixedOffset pf" "\<forall>c \<in> set rest. ordinaryDate c" "dayOf e = Some d"
  shows "countBackwards pf rest e k = k + walkExpected d rest"
  using assms(2,3)
proof (induction rest arbitrary: e d k)
  case Nil
  show ?case by simp
next
  case (Cons c rest)
  from Cons.prems(1) have oc: "ordinaryDate c" by simp
  then obtain x where x: "dayOf c = Some x"
    by (auto simp: ordinaryDate_def wellFormedDate_def dayOf_def)
  have diff: "getDaysDifference pf c e = Some \<bar>d - x\<bar>"
    using x Cons.prems(2) by (rule getDaysDifference_days)
  show ?case
  proof (cases "x = d")
    case True
    obtain p where p: "previousDay pf c = Some p" "dayOf p = Some (d - 1)"
      using previousDay_fixedOffset [OF assms(1) oc x] True by auto
    have "countBackwards pf rest p (k + 1) = k + 1 + walkExpected (d - 1) rest"
      using Cons.prems(1) p(2) by (intro Cons.IH) simp_all
    then show ?thesis using True x diff p(1) by simp
  next
    case False
    then show ?thesis using x diff by simp
  qed
qed

lemma today_dayOf:
  assumes "wellFormedDate (getTodayDateString now)"
  shows "dayOf (getTodayDateString now) = Some (now div msPerDay)"
proof -
  from assms obtain t where t: "parseISODate (toISODate now) = Some t"
    by (auto simp: wellFormedDate_def getTodayDateString_def)
  then show ?thesis
    using parseISODate_toISODate_SomeD [OF t] by (simp add: getTodayDateString_def dayOf_I)
qed

lemma yesterday_fixedOffset:
  assumes "fixedOffset pf" "ordinaryDate (getTodayDateString now)"
  shows "dayOf (getYesterdayDateString pf now) = Some (now div msPerDay - 1)"
proof -
  have t: "dayOf (getTodayDateString now) = Some (now div msPerDay)"
    using assms(2) by (intro today_dayOf) (simp add: ordinaryDate_def)
  have "toISODate (now - msPerDay) = toISODate (msPerDay * (now div msPerDay) - msPerDay)"
    by (rule toISODate_cong) (simp only: yesterday_day msPerDay_div)
  then show ?thesis
    using dayBefore_wellFormed [OF assms(2) t]
    by (simp add: getYesterdayDateString_def dayBefore_fixedOffset [OF assms(1)])
qed

lemma currentStreak_spec:
  assumes "fixedOffset pf" "\<forall>e \<in> set (checkIns h). ordinaryDate (stripTime e)"
  shows "currentStreak (calculateStreaks pf now h) = currentStreakSpec now (sortedCheckIns pf h)"
proof (cases "sortedCheckIns pf h")
  case Nil
  then show ?thesis by (simp add: calculateStreaks_sorted currentStreakSpec_def)
next
  case (Cons c rest)
  have ord: "ordinaryDate x" if "x \<in> set (sortedCheckIns pf h)" for x
    using that assms(2) by (auto simp: set_sortedCheckIns calendarDates_def)
  show ?thesis
  proof (cases "c = getTodayDateString now")
    case True
    have "ordinaryDate (getTodayDateString now)" using ord [of c] Cons True by simp
    then have "dayOf (getYesterdayDateString pf now) = Some (now div msPerDay - 1)"
      using assms(1) by (intro yesterday_fixedOffset)
    moreover have "\<forall>x \<in> set rest. ordinaryDate x" using ord Cons by simp
    ultimately have "countBackwards pf rest (getYesterdayDateString pf now) 1
        = 1 + walkExpected (now div msPerDay - 1) rest"
      using assms(1) by (intro countBackwards_walk)
    then show ?thesis
      using True by (simp add: calculateStreaks_sorted currentStreakSpec_def Cons isToday_def)
  next
    case False
    then show ?thesis
      by (simp add: calculateStreaks_sorted currentStreakSpec_def Cons isToday_def)
  qed
qed

text \<open>
  Claim C3 fails on the code where local time has a daylight saving change: in Los
  Angeles on 2024-11-06, a log with a check-in on each of the five days up to today
  has current streak 3. The date expected before 2024-11-04 is computed as 2024-11-02:
  midnight UTC of November 4 is 16:00 on November 3 in local time, \<^verbatim>\<open>setDate\<close> moves it
  to 16:00 on November 2, which still is daylight saving time and so 23:00 UTC of
  November 2, and \<^verbatim>\<open>toISOString\<close> reads off that UTC date. The entry 2024-11-03 is then
  not the expected date and the count stops, while by the specification it is the
  expected predecessor and the count is 5, which is also the longest streak that the
  code itself finds in this log.
\<close>

theorem current_streak_skips_a_day:
  "getTodayDateString nov6 = ''2024-11-06'' \<and>
   sortedCheckIns losAngeles
     (habitWith [''2024-11-02'', ''2024-11-03'', ''2024-11-04'', ''2024-11-05'', ''2024-11-06''])
     = [''2024-11-06'', ''2024-11-05'', ''2024-11-04'', ''2024-11-03'', ''2024-11-02''] \<and>
   previousDay losAngeles ''2024-11-05'' = Some ''2024-11-04'' \<and>
   previousDay losAngeles ''2024-11-04'' = Some ''2024-11-02'' \<and>
   calculateStreaks losAngeles nov6
     (habitWith [''2024-11-02'', ''2024-11-03'', ''2024-11-04'', ''2024-11-05'', ''2024-11-06''])
     = \<lparr>currentStreak = 3, longestStreak = 5\<rparr> \<and>
   currentStreakSpec nov6
     [''2024-11-06'', ''2024-11-05'', ''2024-11-04'', ''2024-11-03'', ''2024-11-02''] = 5"
  by code_simp

section \<open>Bounds on the streaks\<close>

lemma countBackwards_ge: "k \<le> countBackwards pf rest e k"
proof (induction rest arbitrary: e k)
  case Nil
  show ?case by simp
next
  case (Cons c rest)
  show ?case
  proof (cases "previousDay pf c")
    case None
    then show ?thesis by simp
  next
    case (Some p)
    with Cons.IH [of "k + 1" p] show ?thesis by simp
  qed
qed

lemma longestStreak_ge_one:
  "checkIns h \<noteq> [] \<Longrightarrow> 1 \<le> longestStreak (calculateStreaks pf now h)"
proof -
  assume "checkIns h \<noteq> []"
  then obtain c rest where xs: "sortedCheckIns pf h = c # rest"
    using sortedCheckIns_Nil_iff [of pf h] by (cases "sortedCheckIns pf h") auto
  show ?thesis
    using scanHistory_ge [of 0 1 pf rest c] by (simp add: longestStreak_scan xs)
qed

text \<open>On every platform the longest streak of a non-empty log is at least 1 and neither
  streak is negative.\<close>

lemma streaks_nonneg:
  "0 \<le> currentStreak (calculateStreaks pf now h) \<and> 0 \<le> longestStreak (calculateStreaks pf now h)"
proof (cases "sortedCheckIns pf h")
  case Nil
  then show ?thesis by (simp add: calculateStreaks_sorted)
next
  case (Cons c rest)
  have "(1 :: int) \<le> countBackwards pf rest (getYesterdayDateString pf now) 1"
    by (rule countBackwards_ge)
  moreover have "max 0 1 \<le> max (fst (scanHistory pf rest c 0 1)) (snd (scanHistory pf rest c 0 1))"
    by (rule scanHistory_ge)
  ultimately show ?thesis by (simp add: calculateStreaks_sorted Cons)
qed

text \<open>Where local time has one offset from UTC, and for a log of well-formed dates other
  than 0000-01-01, the current streak is at most the longest streak.\<close>

lemma getDaysDifference_one:
  "dayOf prev = Some d \<Longrightarrow> dayOf c = Some (d - 1) \<Longrightarrow> getDaysDifference pf prev c = Some 1"
  by (simp add: getDaysDifference_days)

lemma scanHistory_ge_walk:
  assumes "dayOf prev = Some d"
  shows "T + walkExpected (d - 1) rest
         \<le> max (fst (scanHistory pf rest prev L T)) (snd (scanHistory pf rest prev L T))"
  using assms
proof (induction rest arbitrary: prev d L T)
  case Nil
  then show ?case by simp
next
  case (Cons c rest)
  show ?case
  proof (cases "dayOf c = Some (d - 1)")
    case True
    then show ?thesis
      using Cons.IH [of c "d - 1" "T + 1" L] getDaysDifference_one [OF Cons.prems True, of pf]
      by simp
  next
    case False
    then show ?thesis
      using scanHistory_ge [of L T pf "c # rest" prev] by simp
  qed
qed

lemma current_le_longest:
  assumes "fixedOffset pf" "\<forall>e \<in> set (checkIns h). ordinaryDate (stripTime e)"
  shows "currentStreak (calculateStreaks pf now h) \<le> longestStreak (calculateStreaks pf now h)"
proof (cases "sortedCheckIns pf h")
  case Nil
  then show ?thesis by (simp add: calculateStreaks_sorted)
next
  case (Cons c rest)
  let ?r = "scanHistory pf rest c 0 1"
  have longest: "longestStreak (calculateStreaks pf now h) = max (fst ?r) (snd ?r)"
    by (simp add: longestStreak_scan Cons)
  have one: "1 \<le> max (fst ?r) (snd ?r)"
    using scanHistory_ge [of 0 1 pf rest c] by simp
  have "c \<in> set (sortedCheckIns pf h)" by (simp add: Cons)
  then have wf: "wellFormedDate c"
    using assms(2) by (auto simp: set_sortedCheckIns calendarDates_def ordinaryDate_def)
  show ?thesis
  proof (cases "c = getTodayDateString now")
    case True
    then have "dayOf c = Some (now div msPerDay)" using wf today_dayOf by simp
    from scanHistory_ge_walk [OF this, of 1 rest pf 0] True
    show ?thesis
      using assms by (simp add: currentStreak_spec currentStreakSpec_def Cons longest)
  next
    case False
    then show ?thesis
      using one assms by (simp add: currentStreak_spec currentStreakSpec_def Cons longest)
  qed
qed

text \<open>
  Claim C6 fails on the code where local time has a daylight saving change: in Los
  Angeles on 2024-11-06, the log of the well-formed dates 2024-11-06, 2024-11-05,
  2024-11-04 and 2024-11-02 has current streak 4 and longest streak 3. The longest
  streak is right (November 3 is missing). The current streak counts the entry
  2024-11-02 as the day before 2024-11-04, because the expected date is found by
  stepping back one day in local time and reading the date off in UTC.
\<close>

theorem current_streak_exceeds_longest:
  "wellFormedDate ''2024-11-06'' \<and> wellFormedDate ''2024-11-05'' \<and>
   wellFormedDate ''2024-11-04'' \<and> wellFormedDate ''2024-11-02'' \<and>
   getTodayDateString nov6 = ''2024-11-06'' \<and>
   getDaysDifference losAngeles ''2024-11-04'' ''2024-11-02'' = Some 2 \<and>
   previousDay losAngeles ''2024-11-04'' = Some ''2024-11-02'' \<and>
   calculateStreaks losAngeles nov6
     (habitWith [''2024-11-06'', ''2024-11-05'', ''2024-11-04'', ''2024-11-02''])
     = \<lparr>currentStreak = 4, longestStreak = 3\<rparr>"
  by code_simp

section \<open>The check-in toggle\<close>

lemma findIndex_none: "\<forall>x \<in> set xs. \<not> p x \<Longrightarrow> findIndex p xs = - 1"
  by (induction xs) (auto simp: Let_def)

lemma findIndex_some: "\<exists>x \<in> set xs. p x \<Longrightarrow> 0 \<le> findIndex p xs"
proof (induction xs)
  case Nil
  then show ?case by simp
next
  case (Cons y ys)
  show ?case
  proof (cases "p y")
    case True
    then show ?thesis by simp
  next
    case False
    with Cons.prems have "\<exists>x \<in> set ys. p x" by simp
    then have "0 \<le> findIndex p ys" by (rule Cons.IH)
    with False show ?thesis by (simp add: Let_def)
  qed
qed

lemma findIndex_iff: "(findIndex p xs \<noteq> - 1) = (\<exists>x \<in> set xs. p x)"
  using findIndex_none [of xs p] findIndex_some [of xs p] by fastforce

lemma splice1_Cons: "0 \<le> i \<Longrightarrow> splice1 (i + 1) (y # ys) = y # splice1 i ys"
  by (simp add: splice1_def nat_add_distrib)

lemma splice1_findIndex:
  "\<exists>x \<in> set xs. p x \<Longrightarrow>
   splice1 (findIndex p xs) xs = takeWhile (\<lambda>x. \<not> p x) xs @ tl (dropWhile (\<lambda>x. \<not> p x) xs)"
proof (induction xs)
  case Nil
  then show ?case by simp
next
  case (Cons y ys)
  show ?case
  proof (cases "p y")
    case True
    then show ?thesis by (simp add: splice1_def)
  next
    case False
    with Cons.prems have ex: "\<exists>x \<in> set ys. p x" by simp
    then have "0 \<le> findIndex p ys" by (rule findIndex_some)
    then show ?thesis
      using False Cons.IH [OF ex] by (simp add: Let_def splice1_Cons)
  qed
qed

lemma removed_first:
  assumes "distinct (map f xs)" "\<exists>x \<in> set xs. f x = v"
  shows "distinct (map f (takeWhile (\<lambda>x. f x \<noteq> v) xs @ tl (dropWhile (\<lambda>x. f x \<noteq> v) xs)))"
    and "f ` set (takeWhile (\<lambda>x. f x \<noteq> v) xs @ tl (dropWhile (\<lambda>x. f x \<noteq> v) xs)) = f ` set xs - {v}"
proof -
  define before where "before = takeWhile (\<lambda>x. f x \<noteq> v) xs"
  define from_match where "from_match = dropWhile (\<lambda>x. f x \<noteq> v) xs"
  have "from_match \<noteq> []"
    using assms(2) by (auto simp: from_match_def dropWhile_eq_Nil_conv)
  then obtain x after where fm: "from_match = x # after" by (cases from_match) auto
  have "\<not> f (hd from_match) \<noteq> v"
    using \<open>from_match \<noteq> []\<close> unfolding from_match_def by (rule hd_dropWhile)
  then have x: "f x = v" by (simp add: fm)
  have "before @ from_match = xs" by (simp add: before_def from_match_def)
  then have xs: "xs = before @ x # after" by (simp add: fm)
  have d: "distinct (map f (before @ x # after))" using assms(1) xs by simp
  show "distinct (map f (takeWhile (\<lambda>x. f x \<noteq> v) xs @ tl (dropWhile (\<lambda>x. f x \<noteq> v) xs)))"
    unfolding before_def [symmetric] from_match_def [symmetric] fm using d by auto
  have "v \<notin> f ` set before" "v \<notin> f ` set after" using d x by auto
  then have "f ` set (before @ after) = f ` set (before @ x # after) - {v}"
    using x by (auto simp: image_Un)
  then show "f ` set (takeWhile (\<lambda>x. f x \<noteq> v) xs @ tl (dropWhile (\<lambda>x. f x \<noteq> v) xs)) = f ` set xs - {v}"
    unfolding before_def [symmetric] from_match_def [symmetric] fm using xs by simp
qed

lemma toggle_log:
  "checkIns (toggleHabit pf now h) =
     (if getTodayDateString now \<in> calendarDates (checkIns h)
      then splice1 (findIndex (\<lambda>date. stripTime date = getTodayDateString now) (checkIns h)) (checkIns h)
      else checkIns h @ [getTodayDateString now])"
proof (cases "getTodayDateString now \<in> calendarDates (checkIns h)")
  case True
  then have "\<exists>x \<in> set (checkIns h). stripTime x = getTodayDateString now"
    by (auto simp: calendarDates_def)
  then have "findIndex (\<lambda>date. stripTime date = getTodayDateString now) (checkIns h) \<noteq> - 1"
    by (simp only: findIndex_iff)
  with True show ?thesis
    by (simp add: toggleHabit_def updateStreaks_def Let_def)
next
  case False
  then have none: "\<forall>x \<in> set (checkIns h). \<not> stripTime x = getTodayDateString now"
    unfolding calendarDates_def by (metis imageI)
  then have "getTodayDateString now \<notin> set (checkIns h)"
    using stripTime_today [of now] by auto
  moreover have "findIndex (\<lambda>date. stripTime date = getTodayDateString now) (checkIns h) = - 1"
    using none by (rule findIndex_none)
  ultimately show ?thesis using False
    by (simp add: toggleHabit_def updateStreaks_def Let_def)
qed

lemma toggle_present:
  assumes "oneEntryPerDate (checkIns h)" "getTodayDateString now \<in> calendarDates (checkIns h)"
  shows "oneEntryPerDate (checkIns (toggleHabit pf now h))"
    and "calendarDates (checkIns (toggleHabit pf now h)) = calendarDates (checkIns h) - {getTodayDateString now}"
proof -
  let ?today = "getTodayDateString now"
  have ex: "\<exists>x \<in> set (checkIns h). stripTime x = ?today"
    using assms(2) by (auto simp: calendarDates_def)
  have log: "checkIns (toggleHabit pf now h) =
      takeWhile (\<lambda>x. stripTime x \<noteq> ?today) (checkIns h) @ tl (dropWhile (\<lambda>x. stripTime x \<noteq> ?today) (checkIns h))"
    using assms(2) splice1_findIndex [OF ex] by (simp add: toggle_log)
  show "oneEntryPerDate (checkIns (toggleHabit pf now h))"
    unfolding log oneEntryPerDate_def
    using assms(1) ex by (intro removed_first(1)) (simp_all add: oneEntryPerDate_def)
  show "calendarDates (checkIns (toggleHabit pf now h)) = calendarDates (checkIns h) - {?today}"
    unfolding log calendarDates_def
    using assms(1) ex by (intro removed_first(2)) (simp_all add: oneEntryPerDate_def)
qed

lemma toggle_absent:
  assumes "oneEntryPerDate (checkIns h)" "getTodayDateString now \<notin> calendarDates (checkIns h)"
  shows "oneEntryPerDate (checkIns (toggleHabit pf now h))"
    and "calendarDates (checkIns (toggleHabit pf now h)) = insert (getTodayDateString now) (calendarDates (checkIns h))"
  using assms
  by (auto simp: toggle_log oneEntryPerDate_def calendarDates_def stripTime_today)

lemma toggleHabit_frame:
  "habitId (toggleHabit pf now h) = habitId h"
  by (simp add: toggleHabit_def updateStreaks_def Let_def)



lemma find_updateFound:
  assumes "find (\<lambda>h. habitId h = i) hs = Some h" "\<And>x. habitId (f x) = habitId x"
  shows "find (\<lambda>h. habitId h = i) (updateFound i f hs) = Some (f h)"
  using assms by (induction hs) (auto split: if_splits)

lemma habits_saveHabitsToStorage: "habits (saveHabitsToStorage now a) = habits a"
  by (simp add: saveHabitsToStorage_def Let_def)

lemma toggleCheckIn_found:
  assumes "find (\<lambda>h. habitId h = i) (habits a) = Some h"
  shows "find (\<lambda>h. habitId h = i) (habits (toggleCheckIn pf now i a)) = Some (toggleHabit pf now h)"
  using assms find_updateFound [OF assms, of "toggleHabit pf now"]
  by (simp add: toggleCheckIn_def habits_saveHabitsToStorage toggleHabit_frame)


text \<open>
  Claim C9. The check-in toggle preserves the invariant of at most one entry per
  calendar date: for every habit of the application whose log satisfies it, the log
  after \<open>toggleCheckIn\<close> satisfies it too. If today's date was present it is removed
  (and no other date is), and if it was absent it is appended exactly once; the branch
  that would leave the log unchanged because today is already an entry is never taken.
\<close>

theorem toggle_keeps_one_entry_per_date:
  assumes "find (\<lambda>h. habitId h = i) (habits a) = Some h"
    and "oneEntryPerDate (checkIns h)"
  shows "\<exists>h'. find (\<lambda>h. habitId h = i) (habits (toggleCheckIn pf now i a)) = Some h' \<and>
           oneEntryPerDate (checkIns h') \<and>
           (getTodayDateString now \<in> calendarDates (checkIns h) \<longrightarrow>
              calendarDates (checkIns h') = calendarDates (checkIns h) - {getTodayDateString now}) \<and>
           (getTodayDateString now \<notin> calendarDates (checkIns h) \<longrightarrow>
              checkIns h' = checkIns h @ [getTodayDateString now])"
proof (intro exI conjI impI)
  show "find (\<lambda>h. habitId h = i) (habits (toggleCheckIn pf now i a)) = Some (toggleHabit pf now h)"
    using assms(1) by (rule toggleCheckIn_found)
  show "oneEntryPerDate (checkIns (toggleHabit pf now h))"
    using toggle_present(1) [OF assms(2)] toggle_absent(1) [OF assms(2)] by blast
  show "calendarDates (checkIns (toggleHabit pf now h)) = calendarDates (checkIns h) - {getTodayDateString now}"
    if "getTodayDateString now \<in> calendarDates (checkIns h)"
    using toggle_present(2) [OF assms(2) that] .
  show "checkIns (toggleHabit pf now h) = checkIns h @ [getTodayDateString now]"
    if "getTodayDateString now \<notin> calendarDates (checkIns h)"
    using that by (simp add: toggle_log)
qed

theorem toggle_keeps_one_entry_per_date_witness:
  "find (\<lambda>h. habitId h = ''h1'') (habits (appWith [habitWith [''2024-01-31'', ''2024-02-01T07:30:00'']]))
     = Some (habitWith [''2024-01-31'', ''2024-02-01T07:30:00'']) \<and>
   oneEntryPerDate (checkIns (habitWith [''2024-01-31'', ''2024-02-01T07:30:00''])) \<and>
   getTodayDateString feb1 \<in> calendarDates (checkIns (habitWith [''2024-01-31'', ''2024-02-01T07:30:00''])) \<and>
   (\<exists>h'. find (\<lambda>h. habitId h = ''h1'')
            (habits (toggleCheckIn utc feb1 ''h1'' (appWith [habitWith [''2024-01-31'', ''2024-02-01T07:30:00'']])))
          = Some h' \<and>
         oneEntryPerDate (checkIns h') \<and>
         calendarDates (checkIns h') =
           calendarDates (checkIns (habitWith [''2024-01-31'', ''2024-02-01T07:30:00''])) - {getTodayDateString feb1})"
proof -
  let ?h = "habitWith [''2024-01-31'', ''2024-02-01T07:30:00'']"
  have a: "find (\<lambda>h. habitId h = ''h1'') (habits (appWith [?h])) = Some ?h"
    by (simp add: appWith_def habitWith_def)
  have b: "oneEntryPerDate (checkIns ?h)" by code_simp
  have c: "getTodayDateString feb1 \<in> calendarDates (checkIns ?h)" by code_simp
  from toggle_keeps_one_entry_per_date [OF a b, of utc feb1] a b c show ?thesis by blast
qed




section \<open>Date rollover\<close>

lemma rolloverHabit_cases:
  "rolloverHabit pf now h = (h, False) \<or> rolloverHabit pf now h = (updateStreaks pf now h, True)"
  by (auto simp: rolloverHabit_def split: list.splits option.splits)




text \<open>What the handler does restore: a habit it recomputes ends with up-to-date streak
  fields, and the current streak of a log without today's date is 0. The load path
  recomputes every habit.\<close>

lemma updateStreaks_upToDate: "streaksUpToDate pf now (updateStreaks pf now h)"
  by (simp add: streaksUpToDate_def updateStreaks_def Let_def calculateStreaks_fields)

lemma rollover_recomputed:
  "snd (rolloverHabit pf now h) \<Longrightarrow>
   fst (rolloverHabit pf now h) = updateStreaks pf now h \<and>
   streaksUpToDate pf now (fst (rolloverHabit pf now h))"
  using rolloverHabit_cases [of pf now h] by (auto simp: updateStreaks_upToDate)

lemma not_checked_in_today:
  assumes "getTodayDateString now \<notin> calendarDates (checkIns h)"
  shows "currentStreak (calculateStreaks pf now h) = 0"
proof (cases "sortedCheckIns pf h")
  case Nil
  then show ?thesis by (simp add: calculateStreaks_sorted)
next
  case (Cons c rest)
  then have "c \<in> set (sortedCheckIns pf h)" by simp
  then have "c \<noteq> getTodayDateString now" using assms by (auto simp: set_sortedCheckIns)
  then show ?thesis by (simp add: calculateStreaks_sorted Cons isToday_def)
qed

lemma load_recomputes_every_habit:
  "h' \<in> set (loadHabitsFromStorage pf now a) \<Longrightarrow> streaksUpToDate pf now h'"
  by (auto simp: loadHabitsFromStorage_def updateStreaks_upToDate split: option.splits)




text \<open>
  Claim C1 fails on the code: a habit last checked in on 2024-01-31 (streaks as
  computed that day), stored date 2024-01-31, clock on 2024-02-01. The rollover check
  runs, the habit's last check-in was yesterday, so the handler skips it and the
  stored current streak stays 1, while \<open>calculateStreaks\<close> for the new today gives 0
  (what \<open>loadHabitsFromStorage\<close> would store on a reload, and what the README
  documents).
\<close>

theorem rollover_keeps_stale_streak:
  "hasDateChanged feb1 (appWith [updateStreaks utc (feb1 - msPerDay) (habitWith [''2024-01-31''])]) \<and>
   map currentStreak
     (habits (checkDateRollover utc feb1 (appWith [updateStreaks utc (feb1 - msPerDay) (habitWith [''2024-01-31''])])))
     = [1] \<and>
   map (\<lambda>h. currentStreak (calculateStreaks utc feb1 h))
     (habits (checkDateRollover utc feb1 (appWith [updateStreaks utc (feb1 - msPerDay) (habitWith [''2024-01-31''])])))
     = [0]"
  by code_simp

section \<open>Malformed entries\<close>

text \<open>
  Claim C5, amended. Normalisation drops no entry: it only strips time components and
  removes exact duplicates, so the normalised list that both scans walk holds every
  calendar date of the log once, whether it is a well-formed date or not. The
  computation does not abort (the one platform call that could throw, \<^verbatim>\<open>toISOString\<close> on
  an Invalid Date, is only reached for a valid date), and every non-empty log, even one
  without a single well-formed date, has a longest streak of at least 1.
\<close>

theorem malformed_entries_are_kept:
  "set (sortedCheckIns pf h) = calendarDates (checkIns h) \<and>
   distinct (sortedCheckIns pf h) \<and>
   (checkIns h \<noteq> [] \<longrightarrow> 1 \<le> longestStreak (calculateStreaks pf now h)) \<and>
   (\<forall>c e. getDaysDifference pf c e = Some 0 \<longrightarrow> previousDay pf c \<noteq> None)"
proof (intro conjI allI impI)
  show "set (sortedCheckIns pf h) = calendarDates (checkIns h)" by (rule set_sortedCheckIns)
  show "distinct (sortedCheckIns pf h)" by (rule distinct_sortedCheckIns)
  show "1 \<le> longestStreak (calculateStreaks pf now h)" if "checkIns h \<noteq> []"
    using that by (rule longestStreak_ge_one)
  show "previousDay pf c \<noteq> None" if "getDaysDifference pf c e = Some 0" for c e
    using previousDay_defined [OF that] by auto
qed

theorem malformed_entries_are_kept_witness:
  "\<not> wellFormedDate ''corrupt'' \<and>
   checkIns (habitWith [''2024-01-31'', ''corrupt'']) \<noteq> [] \<and>
   ''corrupt'' \<in> set (sortedCheckIns utc (habitWith [''2024-01-31'', ''corrupt''])) \<and>
   1 \<le> longestStreak (calculateStreaks utc feb1 (habitWith [''2024-01-31'', ''corrupt''])) \<and>
   getDaysDifference utc ''2024-01-31'' ''2024-01-31'' = Some 0 \<and>
   previousDay utc ''2024-01-31'' \<noteq> None"
proof -
  define h where "h = habitWith [''2024-01-31'', ''corrupt'']"
  have a: "\<not> wellFormedDate ''corrupt''" by code_simp
  have b: "checkIns h \<noteq> []" by (simp add: h_def habitWith_def)
  have c: "''corrupt'' \<in> calendarDates (checkIns h)"
    by (simp add: h_def habitWith_def calendarDates_def stripTime_def)
  have d: "getDaysDifference utc ''2024-01-31'' ''2024-01-31'' = Some 0" by code_simp
  from malformed_entries_are_kept [of utc h feb1] b c d
  have "''corrupt'' \<in> set (sortedCheckIns utc h)"
    and "1 \<le> longestStreak (calculateStreaks utc feb1 h)"
    and "previousDay utc ''2024-01-31'' \<noteq> None"
    by blast+
  with a b d show ?thesis unfolding h_def by blast
qed

text \<open>
  Claim C5 as stated fails: with the entry \<^verbatim>\<open>corrupt\<close> added, a log with check-ins today
  and yesterday has current streak 0 instead of 2 (the entry sorts first, so the most
  recent entry is not today), and a log of that entry alone has longest streak 1, not the
  0 of the empty log.
\<close>

theorem malformed_entry_counterexample:
  "\<not> wellFormedDate (stripTime ''corrupt'') \<and>
   calculateStreaks utc feb1 (habitWith [''2024-02-01'', ''2024-01-31'', ''corrupt''])
     = \<lparr>currentStreak = 0, longestStreak = 2\<rparr> \<and>
   calculateStreaks utc feb1 (habitWith [''2024-02-01'', ''2024-01-31''])
     = \<lparr>currentStreak = 2, longestStreak = 2\<rparr> \<and>
   calculateStreaks utc feb1 (habitWith [''corrupt'']) = \<lparr>currentStreak = 0, longestStreak = 1\<rparr> \<and>
   calculateStreaks utc feb1 (habitWith []) = \<lparr>currentStreak = 0, longestStreak = 0\<rparr>"
  by code_simp

section \<open>What refreshing the streaks writes\<close>

lemma sortedCheckInsArray_eq:
  "sortedCheckInsArray pf a hp =
     (fresh hp + 2,
      hp\<lparr>arrays := (arrays hp)
            (fresh hp \<mapsto> elements a hp,
             fresh hp + 1 \<mapsto> map stripTime (elements a hp),
             fresh hp + 2 \<mapsto> sortWith (\<lambda>a b. localeCompare pf b a)
                                 (removeDuplicates (map stripTime (elements a hp)))),
          fresh := fresh hp + 3\<rparr>)"
  by (simp add: sortedCheckInsArray_def arrayCopy_def arrayMap_def arrayRemoveDuplicates_def
      arraySort_def newArray_def elements_def Let_def)

text \<open>
  Claim C10. Refreshing a habit's streaks writes only the two streak fields:
  \<open>updateStreaks\<close> leaves the id, the name, the log and the creation time unchanged. The
  normalisation inside \<open>calculateStreaks\<close> never writes the habit's own \<^verbatim>\<open>checkIns\<close>
  array: the array that is sorted in place is a fresh one (not the habit's), it holds
  the normalised log, and every array that existed before, the habit's included, has
  its contents unchanged.
\<close>

theorem streak_refresh_frame:
  "habitId (updateStreaks pf now h) = habitId h \<and>
   name (updateStreaks pf now h) = name h \<and>
   checkIns (updateStreaks pf now h) = checkIns h \<and>
   createdAt (updateStreaks pf now h) = createdAt h \<and>
   (\<forall>a log. arrays hp a = Some log \<and> a < fresh hp \<longrightarrow>
      elements (fst (sortedCheckInsArray pf a hp)) (snd (sortedCheckInsArray pf a hp))
        = sortWith (\<lambda>a b. localeCompare pf b a) (removeDuplicates (map stripTime log)) \<and>
      fst (sortedCheckInsArray pf a hp) \<noteq> a \<and>
      arrays (snd (sortedCheckInsArray pf a hp)) a = Some log \<and>
      (\<forall>b. b < fresh hp \<longrightarrow> arrays (snd (sortedCheckInsArray pf a hp)) b = arrays hp b))"
  by (auto simp: updateStreaks_def Let_def sortedCheckInsArray_eq elements_def)

theorem streak_refresh_frame_witness:
  "arrays \<lparr>arrays = [0 \<mapsto> [''2024-01-31'', ''2024-02-01T07:30:00'']], fresh = 1\<rparr> 0
     = Some [''2024-01-31'', ''2024-02-01T07:30:00''] \<and>
   (0 :: nat) < fresh \<lparr>arrays = [0 \<mapsto> [''2024-01-31'', ''2024-02-01T07:30:00'']], fresh = 1\<rparr> \<and>
   arrays (snd (sortedCheckInsArray utc 0
       \<lparr>arrays = [0 \<mapsto> [''2024-01-31'', ''2024-02-01T07:30:00'']], fresh = 1\<rparr>)) 0
     = Some [''2024-01-31'', ''2024-02-01T07:30:00''] \<and>
   elements (fst (sortedCheckInsArray utc 0
       \<lparr>arrays = [0 \<mapsto> [''2024-01-31'', ''2024-02-01T07:30:00'']], fresh = 1\<rparr>))
     (snd (sortedCheckInsArray utc 0
       \<lparr>arrays = [0 \<mapsto> [''2024-01-31'', ''2024-02-01T07:30:00'']], fresh = 1\<rparr>))
     = [''2024-02-01'', ''2024-01-31'']"
proof -
  define log where "log = [''2024-01-31'', ''2024-02-01T07:30:00'']"
  define hp where "hp = \<lparr>arrays = [0 \<mapsto> log], fresh = 1\<rparr>"
  have a: "arrays hp 0 = Some log" and b: "0 < fresh hp" by (simp_all add: hp_def)
  have c: "sortWith (\<lambda>a b. localeCompare utc b a) (removeDuplicates (map stripTime log))
      = [''2024-02-01'', ''2024-01-31'']"
    unfolding log_def by code_simp
  from streak_refresh_frame [of utc feb1 "habitWith []" hp] a b
  have "elements (fst (sortedCheckInsArray utc 0 hp)) (snd (sortedCheckInsArray utc 0 hp))
        = sortWith (\<lambda>a b. localeCompare utc b a) (removeDuplicates (map stripTime log))"
    and "arrays (snd (sortedCheckInsArray utc 0 hp)) 0 = Some log"
    by blast+
  with a b c show ?thesis unfolding hp_def log_def by simp
qed


end
